theory Spec2Isabelle
  imports Main "HOL-Library.Word"
begin

unbundle bit_operations_syntax

section \<open>Machine types, abnormal termination, observable effects\<close>

text \<open>
  crashdec.c works on \<open>uint32_t\<close> and \<open>uint64_t\<close> values; both are modelled as
  machine words, so that \<open>+\<close>, \<open>-\<close> and \<open>*\<close> wrap around as they do in C.
\<close>

type_synonym u32 = "32 word"
type_synonym u64 = "64 word"

text \<open>
  Every way in which a function of crashdec.c does not return to its caller is a value:
  \<^item> \<open>Exit n\<close>: \<open>exit(n)\<close> (\<open>popline\<close> at the end of the input calls \<open>exit(0)\<close>);
  \<^item> \<open>AssertFailed\<close>: an \<open>assert\<close> whose condition is false (abort);
  \<^item> \<open>ParseError fmt\<close>: \<open>parseline\<close> prints \<open>parse error scanning: 'fmt'\<close> on stderr and
    calls \<open>exit(1)\<close>;
  \<^item> \<open>OutOfBounds i\<close>: a load or store at word index \<open>i\<close> outside the allocated buffer
    (undefined behaviour in C; also the access through a buffer that was never allocated);
  \<^item> \<open>UnterminatedLine\<close>: the ascii85 decoder runs past the end of a line that has no
    newline (undefined behaviour in C);
  \<^item> \<open>DivideByZero\<close>: the unsigned \<open>%\<close> of \<open>mod_add\<close> with a zero ring size.
\<close>

datatype fault =
    Exit nat
  | AssertFailed
  | ParseError string
  | OutOfBounds nat
  | UnterminatedLine
  | DivideByZero

text \<open>
  What a run does to the outside, in program order: the text written with \<open>printf\<close> (the
  formatted values, not their rendering), and the calls into the collaborators that are
  not part of crashdec.c (\<open>reset_regs\<close>, \<open>add_buffer\<close>, \<open>dump_hex_ascii\<close>,
  \<open>dump_commands\<close>).
\<close>

datatype effect =
    Printf string
  | GotRbBase u64
  | PrintIB nat u64 u32
  | RegsReset
  | FoundRing
  | GotCmdszdw u32
  | DumpCommands "u32 list" u32
  | DumpHexAscii "u32 list" u32
  | AddBuffer u64 u32 "u32 list"

section \<open>Global state of crashdec.c\<close>

text \<open>
  The part of \<open>struct cffdec_options\<close> that crashdec.c reads and writes. The declaration
  (cffdec.h) is not among the sources: \<open>gpu_id\<close> is scanned with \<open>%u\<close> and \<open>rem\<close> is
  printed with \<open>%u\<close>, so both are taken as 32-bit unsigned, and \<open>base\<close> is printed with
  \<open>PRIx64\<close>.
\<close>

record ib =
  ib_base :: u64
  ib_rem :: u32

record cffdec_options =
  gpu_id :: u32
  ibs :: "nat \<Rightarrow> ib"

text \<open>One element of the static array \<open>ringbuffers[5]\<close>. An empty \<open>rb_buf\<close> stands for
  the null pointer of a descriptor whose payload was never decoded.\<close>

record ringbuffer =
  rb_iova :: u64
  rb_rptr :: u32
  rb_wptr :: u32
  rb_size :: u32
  rb_buf :: "u32 list"

text \<open>
  The file-scope variables: the input stream \<open>in\<close> (the lines not yet read, each with
  its newline), \<open>lastline\<close>, \<open>pushedline\<close>, \<open>verbose\<close>, \<open>options\<close> and
  \<open>ringbuffers\<close>; the register file kept by the register state tracker; and the effects
  produced so far.
\<close>

record crashdec =
  infile :: "string list"
  lastline :: "string option"
  pushedline :: "string option"
  verbose :: bool
  options :: cffdec_options
  ringbuffers :: "ringbuffer list"
  regs :: "u32 \<Rightarrow> u32"
  effects :: "effect list"

text \<open>
  Functions that crashdec.c calls and that are defined elsewhere are parameters of the
  model: the name lookup \<open>regbase\<close> of the register database (0 for an unknown name), the
  packet header tests \<open>pkt_is_type4\<close> and \<open>pkt_is_type7\<close>, and the C library's
  \<open>vsscanf\<close>, which either fails before the first conversion (\<open>ScanEOF\<close>, the value
  \<open>EOF\<close>) or returns the number of conversions it stored, given here with the stored
  values.
\<close>

datatype scan = ScanEOF | Scanned "u64 list"

record collaborators =
  regbase :: "string \<Rightarrow> u32"
  pkt_is_type4 :: "u32 \<Rightarrow> bool"
  pkt_is_type7 :: "u32 \<Rightarrow> bool"
  vsscanf :: "string \<Rightarrow> string \<Rightarrow> scan"

definition emit :: "effect \<Rightarrow> crashdec \<Rightarrow> crashdec" where
  "emit e st = st\<lparr>effects := effects st @ [e]\<rparr>"

text \<open>Sequencing of a step that may not return with what follows it.\<close>

definition andthen :: "fault + 'a \<Rightarrow> ('a \<Rightarrow> fault + 'b) \<Rightarrow> fault + 'b" where
  "andthen m f = (case m of Inl e \<Rightarrow> Inl e | Inr x \<Rightarrow> f x)"

section \<open>GPU generation tests and register reads\<close>

definition is_a6xx :: "cffdec_options \<Rightarrow> bool" where
  "is_a6xx opts = (600 \<le> gpu_id opts \<and> gpu_id opts < 700)"

definition is_64b :: "cffdec_options \<Rightarrow> bool" where
  "is_64b opts = (gpu_id opts \<ge> 500)"

text \<open>
  Modelled from the spec: \<open>reg_val\<close> of the register state tracker (cffdec.c, which is
  not among the sources). Section 4.5: \<open>get(index)\<close> returns the last stored value, zero
  for a register never written.
\<close>

definition reg_val :: "crashdec \<Rightarrow> u32 \<Rightarrow> u32" where
  "reg_val st reg = regs st reg"

text \<open>
  Modelled from the spec: \<open>reset_regs\<close> of the register state tracker (cffdec.c, which is
  not among the sources). Section 4.5: \<open>reset()\<close> clears all stored values to the default,
  zero. The call is recorded among the effects.
\<close>

definition reset_regs :: "crashdec \<Rightarrow> crashdec" where
  "reset_regs st = emit RegsReset (st\<lparr>regs := (\<lambda>_. 0)\<rparr>)"

text \<open>\<open>regval64\<close>: registers that are 64 bits wide on 64-bit GPUs (a5xx and later).\<close>

definition regval64 :: "collaborators \<Rightarrow> crashdec \<Rightarrow> string \<Rightarrow> fault + u64" where
  "regval64 ex st name =
     (let reg = regbase ex name in
      if reg = 0 then Inl AssertFailed
      else
        let val = (ucast (reg_val st reg) :: u64) in
        Inr (if is_64b (options st)
             then val OR push_bit 32 (ucast (reg_val st (reg + 1)) :: u64)
             else val))"

definition regval :: "collaborators \<Rightarrow> crashdec \<Rightarrow> string \<Rightarrow> fault + u32" where
  "regval ex st name =
     (let reg = regbase ex name in
      if reg = 0 then Inl AssertFailed else Inr (reg_val st reg))"

section \<open>Line reading\<close>

definition popline :: "crashdec \<Rightarrow> fault + (string \<times> crashdec)" where
  "popline st =
     (case pushedline st of
        Some r \<Rightarrow> Inr (r, st\<lparr>pushedline := None\<rparr>)
      | None \<Rightarrow>
          (case infile st of
             [] \<Rightarrow> Inl (Exit 0)
           | r # rest \<Rightarrow> Inr (r, st\<lparr>infile := rest, lastline := Some r\<rparr>)))"

definition pushline :: "crashdec \<Rightarrow> fault + crashdec" where
  "pushline st =
     (if pushedline st \<noteq> None then Inl AssertFailed
      else Inr (st\<lparr>pushedline := lastline st\<rparr>))"

text \<open>
  \<open>pushedline\<close> is only ever assigned \<open>NULL\<close> or the pointer \<open>lastline\<close>, and
  \<open>lastline\<close> changes only while \<open>pushedline\<close> is \<open>NULL\<close>; so in every state the program
  reaches, a pushed line is the last line read.
\<close>

definition reader_ok :: "crashdec \<Rightarrow> bool" where
  "reader_ok st = (pushedline st = None \<or> pushedline st = lastline st)"

section \<open>The ascii85 payload decoder\<close>

abbreviation newline :: char where
  "newline \<equiv> CHR 0x0A"

abbreviation space :: char where
  "space \<equiv> CHR '' ''"

text \<open>
  The value of a plain \<open>char\<close> in an arithmetic expression; \<open>char\<close> is taken as signed,
  as on x86-64 (the characters of a payload are below 128, where signedness plays no
  role).
\<close>

definition c_char :: "char \<Rightarrow> int" where
  "c_char c = (if (of_char c :: nat) < 128 then int (of_char c) else int (of_char c) - 256)"

text \<open>
  The inner \<open>for\<close> loop: up to \<open>n\<close> more characters of one group, stopping early at the
  newline. It returns the accumulator and the rest of the line. A line that ends without
  a newline makes the loops read the terminating NUL and then past it.
\<close>

fun ascii85_group :: "nat \<Rightarrow> u32 \<Rightarrow> string \<Rightarrow> fault + (u32 \<times> string)" where
  "ascii85_group 0 accum line = Inr (accum, line)"
| "ascii85_group (Suc n) accum [] = Inl UnterminatedLine"
| "ascii85_group (Suc n) accum (c # cs) =
     (if c = newline then Inr (accum, c # cs)
      else ascii85_group n (accum * 85 + word_of_int (c_char c - 33)) cs)"

lemma ascii85_group_length:
  "ascii85_group n accum line = Inr (a, rest) \<Longrightarrow> length rest \<le> length line"
  by (induction n accum line rule: ascii85_group.induct) (auto split: if_splits)

text \<open>
  The outer \<open>while\<close> loop, with the buffer and the index \<open>idx\<close> of the next store. The
  buffer has the length that was allocated; the code stores at \<open>buf[idx++]\<close> without a
  check, which is a fault when \<open>idx\<close> is not inside the buffer.
\<close>

function ascii85_loop :: "string \<Rightarrow> u32 list \<Rightarrow> nat \<Rightarrow> fault + u32 list" where
  "ascii85_loop [] buf idx = Inl UnterminatedLine"
| "ascii85_loop (c # cs) buf idx =
     (if c = newline then Inr buf
      else if c = CHR ''z'' then
        (if idx < length buf then ascii85_loop cs (buf[idx := 0]) (Suc idx)
         else Inl (OutOfBounds idx))
      else
        (case ascii85_group 5 0 (c # cs) of
           Inl e \<Rightarrow> Inl e
         | Inr (accum, rest) \<Rightarrow>
             (if idx < length buf then ascii85_loop rest (buf[idx := accum]) (Suc idx)
              else Inl (OutOfBounds idx))))"
  by pat_completeness auto
termination
proof (relation "measure (\<lambda>(line, buf, idx). length line)")
  show "wf (measure (\<lambda>(line, buf, idx). length line))" by simp
next
  fix c :: char and cs buf idx
  show "((cs, buf[idx := 0], Suc idx), c # cs, buf, idx) \<in> measure (\<lambda>(line, buf, idx). length line)"
    by simp
next
  fix c :: char and cs buf idx x2 accum rest
  assume nl: "c \<noteq> newline"
    and g: "ascii85_group 5 0 (c # cs) = Inr x2" and x: "(accum, rest) = x2"
  from g x nl have "ascii85_group 4 (0 * 85 + word_of_int (c_char c - 33)) cs = Inr (accum, rest)"
    by (simp add: numeral_eq_Suc)
  then have "length rest \<le> length cs" by (rule ascii85_group_length)
  then show "((rest, buf[idx := accum], Suc idx), c # cs, buf, idx)
      \<in> measure (\<lambda>(line, buf, idx). length line)"
    by simp
qed

text \<open>
  \<open>popline_ascii85\<close>: the next line, an assertion that it is indented, the leading
  blanks skipped, and the loop on a zero-filled buffer from \<open>calloc(1, 4 * sizedwords)\<close>.
  The byte count \<open>4 * sizedwords\<close> is a 32-bit product, so the buffer holds
  \<open>(4 * sizedwords mod 2^32) / 4\<close> words.
\<close>

definition popline_ascii85 :: "u32 \<Rightarrow> crashdec \<Rightarrow> fault + (u32 list \<times> crashdec)" where
  "popline_ascii85 sizedwords st =
     andthen (popline st) (\<lambda>(line, st').
       if line = [] \<or> hd line \<noteq> space then Inl AssertFailed
       else
         andthen
           (ascii85_loop (dropWhile (\<lambda>c. c = space) line)
              (replicate (unat (4 * sizedwords) div 4) 0) 0)
           (\<lambda>buf. Inr (buf, st')))"

section \<open>Section scanning and the bos decoder\<close>

definition startswith :: "string \<Rightarrow> string \<Rightarrow> bool" where
  "startswith line start = (take (length start) line = start)"

text \<open>
  The scan of the format string in \<open>parseline\<close> that gives the expected number \<open>n\<close> of
  conversions: \<open>i\<close> is the index of the character, \<open>l\<close> the index of the last \<open>%\<close>
  counted.
\<close>

fun count_conversions :: "string \<Rightarrow> int \<Rightarrow> int \<Rightarrow> int \<Rightarrow> int" where
  "count_conversions [] i n l = n"
| "count_conversions (c # cs) i n l =
     (if c = CHR ''%'' then
        (if i = l - 1 then count_conversions cs (i + 1) (n - 1) 0
         else count_conversions cs (i + 1) (n + 1) i)
      else count_conversions cs (i + 1) n l)"

definition scan_count :: "scan \<Rightarrow> int" where
  "scan_count r = (case r of ScanEOF \<Rightarrow> - 1 | Scanned vs \<Rightarrow> int (length vs))"

text \<open>\<open>parseline\<close> returns the converted values; the caller stores them in its variables.\<close>

definition parseline :: "collaborators \<Rightarrow> string \<Rightarrow> string \<Rightarrow> fault + u64 list" where
  "parseline ex line fmt =
     (let n = count_conversions fmt 0 0 0;
          r = vsscanf ex line fmt
      in
      if scan_count r \<noteq> n then Inl (ParseError fmt)
      else Inr (case r of ScanEOF \<Rightarrow> [] | Scanned vs \<Rightarrow> vs))"

text \<open>What is left for \<open>popline\<close> to deliver: the pushed line and the unread input.\<close>

definition reader_left :: "crashdec \<Rightarrow> nat" where
  "reader_left st = length (infile st) + (if pushedline st = None then 0 else 1)"

lemma popline_reader_left:
  "popline st = Inr (line, st1) \<Longrightarrow> reader_left st1 < reader_left st"
  by (auto simp: popline_def reader_left_def split: option.splits list.splits)

lemma popline_ascii85_reader_left:
  "popline_ascii85 n st = Inr (buf, st1) \<Longrightarrow> reader_left st1 < reader_left st"
  by (auto simp: popline_ascii85_def andthen_def popline_reader_left
      split: sum.splits prod.splits if_splits)

lemma reader_left_emit [simp]: "reader_left (emit e st) = reader_left st"
  by (simp add: reader_left_def emit_def)

text \<open>The lines that \<open>popline\<close> can still deliver, in order.\<close>

definition pending_lines :: "crashdec \<Rightarrow> string list" where
  "pending_lines st = (case pushedline st of None \<Rightarrow> [] | Some l \<Rightarrow> [l]) @ infile st"

text \<open>
  A line for which the two \<open>parseline\<close> calls of \<open>decode_bos\<close> succeed, where they
  apply: \<open>vsscanf\<close> stores the one value that the format asks for.
\<close>

definition bos_line_scans :: "collaborators \<Rightarrow> string \<Rightarrow> bool" where
  "bos_line_scans ex line =
     ((startswith line ''  - iova:'' \<longrightarrow>
         scan_count (vsscanf ex line ''  - iova: %lx'') = 1)
      \<and> (startswith line ''    size:'' \<longrightarrow>
         scan_count (vsscanf ex line ''    size: %u'') = 1))"

text \<open>
  \<open>decode_bos\<close>: the loop \<open>foreach_line_in_section\<close> with its body. The locals \<open>size\<close>
  (here \<open>sz\<close>) and \<open>iova\<close> live across the iterations. The loop ends by pushing back the
  first line that does not start with a blank; at the end of the input \<open>popline\<close> exits.
  \<open>PRIx64\<close> is \<open>lx\<close>.
\<close>

function decode_bos_loop :: "collaborators \<Rightarrow> u32 \<Rightarrow> u64 \<Rightarrow> crashdec \<Rightarrow> fault + crashdec" where
  "decode_bos_loop ex sz iova st =
     (case popline st of
        Inl e \<Rightarrow> Inl e
      | Inr (line, st1) \<Rightarrow>
          if line = [] \<or> hd line \<noteq> space then pushline st1
          else if startswith line ''  - iova:'' then
            (case parseline ex line ''  - iova: %lx'' of
               Inl e \<Rightarrow> Inl e
             | Inr vs \<Rightarrow>
                 decode_bos_loop ex sz (case vs of [] \<Rightarrow> iova | v # _ \<Rightarrow> v)
                   (emit (Printf line) st1))
          else if startswith line ''    size:'' then
            (case parseline ex line ''    size: %u'' of
               Inl e \<Rightarrow> Inl e
             | Inr vs \<Rightarrow>
                 decode_bos_loop ex (case vs of [] \<Rightarrow> sz | v # _ \<Rightarrow> ucast v) iova
                   (emit (Printf line) st1))
          else if startswith line ''    data: !!ascii85 |'' then
            (case popline_ascii85 (sz div 4) st1 of
               Inl e \<Rightarrow> Inl e
             | Inr (buf, st2) \<Rightarrow>
                 decode_bos_loop ex sz iova
                   (emit (AddBuffer iova sz buf)
                      (if verbose st2 then emit (DumpHexAscii buf sz) st2 else st2)))
          else decode_bos_loop ex sz iova (emit (Printf line) st1))"
  by pat_completeness auto
termination
proof (relation "measure (\<lambda>(ex, sz, iova, st). reader_left st)")
qed (auto dest!: popline_reader_left popline_ascii85_reader_left)

declare decode_bos_loop.simps [simp del]

definition decode_bos :: "collaborators \<Rightarrow> crashdec \<Rightarrow> fault + crashdec" where
  "decode_bos ex st = decode_bos_loop ex 0 0 st"

text \<open>
  The locals \<open>size\<close> and \<open>iova\<close> of \<open>decode_bos\<close> after the loop body has run on
  the lines \<open>ls\<close>, none of them a \<open>data:\<close> line. An \<open>iova:\<close> line has \<open>vsscanf\<close>
  store into \<open>iova\<close>, a \<open>size:\<close> line into \<open>size\<close>; a call that converts nothing
  leaves the variable as it was. Nothing else assigns to the two locals.
\<close>

fun size_after :: "collaborators \<Rightarrow> u32 \<Rightarrow> string list \<Rightarrow> u32" where
  "size_after ex sz [] = sz"
| "size_after ex sz (line # ls) =
     size_after ex
       (if startswith line ''  - iova:'' then sz
        else if startswith line ''    size:'' then
          (case vsscanf ex line ''    size: %u'' of Scanned (v # _) \<Rightarrow> ucast v | _ \<Rightarrow> sz)
        else sz) ls"

fun iova_after :: "collaborators \<Rightarrow> u64 \<Rightarrow> string list \<Rightarrow> u64" where
  "iova_after ex iova [] = iova"
| "iova_after ex iova (line # ls) =
     iova_after ex
       (if startswith line ''  - iova:'' then
          (case vsscanf ex line ''  - iova: %lx'' of Scanned (v # _) \<Rightarrow> v | _ \<Rightarrow> iova)
        else iova) ls"

section \<open>Command stream reconstruction\<close>

definition valid_header :: "collaborators \<Rightarrow> cffdec_options \<Rightarrow> u32 \<Rightarrow> bool" where
  "valid_header ex opts pkt =
     (if gpu_id opts \<ge> 500 then pkt_is_type4 ex pkt \<or> pkt_is_type7 ex pkt else True)"

text \<open>
  The macro \<open>mod_add(b, v) = ((ringszdw + (int)(b) + (int)(v)) % ringszdw)\<close>. Since
  \<open>ringszdw\<close> is \<open>unsigned\<close>, the sum is an unsigned 32-bit sum; the casts to \<open>int\<close>
  keep the bit pattern. The remainder is the one of unsigned division.
\<close>

definition mod_add :: "u32 \<Rightarrow> u32 \<Rightarrow> u32 \<Rightarrow> u32" where
  "mod_add ringszdw b v = (ringszdw + b + v) mod ringszdw"

text \<open>The load \<open>ringbuffers[id].buf[p]\<close>.\<close>

definition ring_word :: "u32 list \<Rightarrow> u32 \<Rightarrow> fault + u32" where
  "ring_word buf p =
     (if unat p < length buf then Inr (buf ! unat p) else Inl (OutOfBounds (unat p)))"

text \<open>
  The search loop \<open>for (idx = 0; idx < lookback; idx++)\<close>, with the number of iterations
  still to run. It returns the positions whose word it loaded, in order, and the value of
  \<open>rptr\<close> when the loop is left.
\<close>

fun header_search ::
  "(u32 \<Rightarrow> bool) \<Rightarrow> u32 list \<Rightarrow> u32 \<Rightarrow> nat \<Rightarrow> u32 \<Rightarrow> fault + (u32 list \<times> u32)" where
  "header_search valid buf ringszdw 0 rptr = Inr ([], rptr)"
| "header_search valid buf ringszdw (Suc n) rptr =
     andthen (ring_word buf rptr) (\<lambda>pkt.
       if valid pkt then Inr ([rptr], rptr)
       else
         andthen (header_search valid buf ringszdw n (mod_add ringszdw rptr 1))
           (\<lambda>(probed, r). Inr (rptr # probed, r)))"

text \<open>The copy loop \<open>buf[idx] = ringbuffers[id].buf[mod_add(rptr, idx)]\<close>.\<close>

fun copy_words :: "u32 list \<Rightarrow> u32 \<Rightarrow> u32 \<Rightarrow> nat \<Rightarrow> u32 \<Rightarrow> fault + u32 list" where
  "copy_words buf ringszdw rptr 0 idx = Inr []"
| "copy_words buf ringszdw rptr (Suc n) idx =
     andthen (ring_word buf (mod_add ringszdw rptr idx)) (\<lambda>w.
       andthen (copy_words buf ringszdw rptr n (idx + 1)) (\<lambda>ws. Inr (w # ws)))"

text \<open>
  The body of the loop over \<open>ringbuffers\<close> for a descriptor whose \<open>iova\<close> matches. The
  first \<open>mod_add\<close> divides by \<open>ringszdw\<close>.
\<close>

definition dump_ring :: "collaborators \<Rightarrow> ringbuffer \<Rightarrow> crashdec \<Rightarrow> fault + crashdec" where
  "dump_ring ex rb st0 =
     (let st = emit FoundRing st0;
          ringszdw = drop_bit 2 (rb_size rb)
      in
      if ringszdw = 0 then Inl DivideByZero
      else
        andthen
          (header_search (valid_header ex (options st)) (rb_buf rb) ringszdw 12
             (mod_add ringszdw (rb_rptr rb) (- 12)))
          (\<lambda>(probed, rptr).
             let cmdszdw = mod_add ringszdw (rb_wptr rb) (- rptr);
                 st = emit (GotCmdszdw cmdszdw) st
             in
             andthen (copy_words (rb_buf rb) ringszdw rptr (unat cmdszdw) 0)
               (\<lambda>buf. Inr (emit (DumpCommands buf cmdszdw) st))))"

fun dump_rings :: "collaborators \<Rightarrow> u64 \<Rightarrow> ringbuffer list \<Rightarrow> crashdec \<Rightarrow> fault + crashdec" where
  "dump_rings ex rb_base [] st = Inr st"
| "dump_rings ex rb_base (rb # rbs) st =
     (if rb_iova rb \<noteq> rb_base then dump_rings ex rb_base rbs st
      else andthen (dump_ring ex rb st) (dump_rings ex rb_base rbs))"

definition set_ib_base :: "nat \<Rightarrow> u64 \<Rightarrow> crashdec \<Rightarrow> crashdec" where
  "set_ib_base n v st =
     st\<lparr>options := (options st)\<lparr>ibs := (ibs (options st))(n := (ibs (options st) n)\<lparr>ib_base := v\<rparr>)\<rparr>\<rparr>"

definition set_ib_rem :: "nat \<Rightarrow> u32 \<Rightarrow> crashdec \<Rightarrow> crashdec" where
  "set_ib_rem n v st =
     st\<lparr>options := (options st)\<lparr>ibs := (ibs (options st))(n := (ibs (options st) n)\<lparr>ib_rem := v\<rparr>)\<rparr>\<rparr>"

text \<open>
  The first part of \<open>dump_cmdstream\<close>, up to the two \<open>printf\<close> of the indirect buffers:
  it returns \<open>rb_base\<close> and the state with \<open>options.ibs[1]\<close> and \<open>options.ibs[2]\<close> set.
\<close>

definition read_cp_regs :: "collaborators \<Rightarrow> crashdec \<Rightarrow> fault + (u64 \<times> crashdec)" where
  "read_cp_regs ex st0 =
     andthen (regval64 ex st0 ''CP_RB_BASE'') (\<lambda>rb_base.
     let st = emit (GotRbBase rb_base) st0 in
     andthen (regval64 ex st ''CP_IB1_BASE'') (\<lambda>b1.
     let st = set_ib_base 1 b1 st in
     andthen (regval ex st ''CP_IB1_REM_SIZE'') (\<lambda>r1.
     let st = set_ib_rem 1 r1 st in
     andthen (regval64 ex st ''CP_IB2_BASE'') (\<lambda>b2.
     let st = set_ib_base 2 b2 st in
     andthen (regval ex st ''CP_IB2_REM_SIZE'') (\<lambda>r2.
     let st = set_ib_rem 2 r2 st in
     andthen
       (if is_a6xx (options st) then
          andthen (regval ex st ''CP_CSQ_IB1_STAT'') (\<lambda>s1.
          let st = set_ib_rem 1 (ib_rem (ibs (options st) 1) + drop_bit 16 s1) st in
          andthen (regval ex st ''CP_CSQ_IB2_STAT'') (\<lambda>s2.
          Inr (set_ib_rem 2 (ib_rem (ibs (options st) 2) + drop_bit 16 s2) st)))
        else Inr st)
       (\<lambda>st.
          let st = emit (PrintIB 1 (ib_base (ibs (options st) 1)) (ib_rem (ibs (options st) 1))) st;
              st = emit (PrintIB 2 (ib_base (ibs (options st) 2)) (ib_rem (ibs (options st) 2))) st
          in Inr (rb_base, st)))))))"

text \<open>
  \<open>dump_cmdstream\<close>: the register reads, then \<open>reset_regs\<close>, then the loop over the ring
  buffer descriptors.
\<close>

definition dump_cmdstream :: "collaborators \<Rightarrow> crashdec \<Rightarrow> fault + crashdec" where
  "dump_cmdstream ex st =
     andthen (read_cp_regs ex st) (\<lambda>(rb_base, st1).
       dump_rings ex rb_base (ringbuffers st1) (reset_regs st1))"

text \<open>The effects of the work on one ring: \<open>printf("found ring!")\<close>,
  \<open>printf("got cmdszdw=...")\<close> and the call of \<open>dump_commands\<close>.\<close>

definition ring_effect :: "effect \<Rightarrow> bool" where
  "ring_effect e = (case e of FoundRing \<Rightarrow> True | GotCmdszdw c \<Rightarrow> True
     | DumpCommands b c \<Rightarrow> True | _ \<Rightarrow> False)"

section \<open>The encoder the payload decoder inverts\<close>

text \<open>
  This encoder is not part of crashdec.c. It follows the words of the specification of the
  payload format: a word is written as the group of 5 characters \<open>c\<close> whose digits
  \<open>c - '!'\<close> compose it by \<open>value = value * 85 + (c - '!')\<close>, most significant digit
  first, and an all-zero word is written as the single character \<open>z\<close>. A payload line is
  indented by at least one blank and ends with a newline.
\<close>

fun base85 :: "nat \<Rightarrow> nat \<Rightarrow> string" where
  "base85 0 v = []"
| "base85 (Suc k) v = base85 k (v div 85) @ [char_of (33 + v mod 85)]"

definition encode_word :: "u32 \<Rightarrow> string" where
  "encode_word w = (if w = 0 then [CHR ''z''] else base85 5 (unat w))"

definition encode_words :: "u32 list \<Rightarrow> string" where
  "encode_words ws = concat (map encode_word ws)"

definition payload_line :: "nat \<Rightarrow> u32 list \<Rightarrow> string" where
  "payload_line k ws = replicate (Suc k) space @ encode_words ws @ [newline]"

text \<open>The characters that stand for a base-85 digit: \<open>'!'\<close> (33) to \<open>'u'\<close> (117).\<close>

definition digit85 :: "char \<Rightarrow> bool" where
  "digit85 c = (33 \<le> (of_char c :: nat) \<and> (of_char c :: nat) < 118)"

section \<open>An example dump\<close>

text \<open>
  Concrete inputs on which the properties below are exercised: a register database with the
  seven names \<open>dump_cmdstream\<close> looks up, header tests that compare the type tag of a
  word, a ring of 16 words with a type-7 header at position 5, and a register file.
\<close>

definition example_db :: collaborators where
  "example_db =
     \<lparr>regbase = (\<lambda>name.
         if name = ''CP_RB_BASE'' then 0x800
         else if name = ''CP_IB1_BASE'' then 0x928
         else if name = ''CP_IB1_REM_SIZE'' then 0x92a
         else if name = ''CP_IB2_BASE'' then 0x92b
         else if name = ''CP_IB2_REM_SIZE'' then 0x92d
         else if name = ''CP_CSQ_IB1_STAT'' then 0x8fe
         else if name = ''CP_CSQ_IB2_STAT'' then 0x8ff
         else 0),
      pkt_is_type4 = (\<lambda>pkt. pkt AND 0xf0000000 = 0x40000000),
      pkt_is_type7 = (\<lambda>pkt. pkt AND 0xf0000000 = 0x70000000),
      vsscanf = (\<lambda>line fmt. ScanEOF)\<rparr>"

definition example_ring :: ringbuffer where
  "example_ring =
     \<lparr>rb_iova = 0x1000000, rb_rptr = 14, rb_wptr = 3, rb_size = 64,
      rb_buf = [0, 1, 2, 3, 4, 0x70268000, 6, 7, 8, 9, 10, 11, 12, 13, 14, 15]\<rparr>"

definition example_regs :: "u32 \<Rightarrow> u32" where
  "example_regs r =
     (if r = 0x800 then 0x1000000
      else if r = 0x928 then 0x2000 else if r = 0x929 then 1
      else if r = 0x92a then 10
      else if r = 0x92d then 7
      else if r = 0x8fe then 0x50003
      else if r = 0x8ff then 0x20000
      else 0)"

definition example_state :: "u32 \<Rightarrow> u64 \<Rightarrow> crashdec" where
  "example_state gpu iova =
     \<lparr>infile = [], lastline = None, pushedline = None, verbose = False,
      options = \<lparr>gpu_id = gpu, ibs = (\<lambda>_. \<lparr>ib_base = 0, ib_rem = 0\<rparr>)\<rparr>,
      ringbuffers = [example_ring\<lparr>rb_iova := iova\<rparr>],
      regs = example_regs, effects = []\<rparr>"

section \<open>Properties\<close>

subsection \<open>Ring arithmetic\<close>

lemma ringszdw_bound: "uint (drop_bit 2 (sz :: u32)) < 1073741824"
proof -
  have "uint (drop_bit 2 sz) = uint sz div 4"
    by (simp add: drop_bit_eq_div uint_div_distrib)
  moreover have "uint sz < 4294967296"
    using uint_lt2p [of sz] by simp
  ultimately show ?thesis by linarith
qed

lemma mod_add_neg_uint:
  assumes b: "uint ringszdw < 1073741824"
    and r: "uint rptr < uint ringszdw" and w: "uint wptr < uint ringszdw"
  shows "uint (mod_add ringszdw wptr (- rptr)) = (uint wptr - uint rptr) mod uint ringszdw"
proof -
  have "uint (ringszdw + wptr + (- rptr))
      = (uint ringszdw + uint wptr - uint rptr) mod 4294967296"
    by (simp add: uint_word_ariths mod_simps)
  also have "\<dots> = uint ringszdw + uint wptr - uint rptr"
    using b r w uint_ge_0 [of wptr] uint_ge_0 [of rptr]
    by (intro mod_pos_pos_trivial; linarith)
  finally have e: "uint (ringszdw + wptr + (- rptr))
      = uint ringszdw + uint wptr - uint rptr" .
  have "uint (mod_add ringszdw wptr (- rptr))
      = (uint ringszdw + uint wptr - uint rptr) mod uint ringszdw"
    unfolding mod_add_def uint_mod_distrib e ..
  also have "\<dots> = (uint wptr - uint rptr) mod uint ringszdw"
    by (metis add.commute add_diff_eq mod_add_self2)
  finally show ?thesis .
qed

lemma mod_add_distance:
  assumes b: "uint ringszdw < 1073741824"
    and r: "rptr < ringszdw" and w: "wptr < ringszdw"
  shows "uint (mod_add ringszdw wptr (- rptr)) = (uint wptr - uint rptr) mod uint ringszdw
    \<and> 0 \<le> uint (mod_add ringszdw wptr (- rptr))
    \<and> uint (mod_add ringszdw wptr (- rptr)) < uint ringszdw
    \<and> uint (mod_add ringszdw wptr (- rptr))
        = (if wptr < rptr then uint ringszdw + uint wptr - uint rptr
           else uint wptr - uint rptr)"
proof -
  have r': "uint rptr < uint ringszdw"
    using r by (simp add: word_less_def)
  have w': "uint wptr < uint ringszdw"
    using w by (simp add: word_less_def)
  have pos: "0 < uint ringszdw"
    using r' uint_ge_0 [of rptr] by linarith
  have m: "uint (mod_add ringszdw wptr (- rptr)) = (uint wptr - uint rptr) mod uint ringszdw"
    using b r' w' by (rule mod_add_neg_uint)
  have up: "(uint wptr - uint rptr) mod uint ringszdw < uint ringszdw"
    using pos by (rule pos_mod_bound)
  have wrap: "(uint wptr - uint rptr) mod uint ringszdw
      = (if wptr < rptr then uint ringszdw + uint wptr - uint rptr
         else uint wptr - uint rptr)"
  proof (cases "wptr < rptr")
    case True
    then have lt: "uint wptr < uint rptr" by (simp add: word_less_def)
    have "(uint wptr - uint rptr) mod uint ringszdw
        = (uint wptr - uint rptr + uint ringszdw) mod uint ringszdw"
      by simp
    also have "\<dots> = uint wptr - uint rptr + uint ringszdw"
      using lt r' w' uint_ge_0 [of wptr] by (intro mod_pos_pos_trivial; linarith)
    finally show ?thesis using True by simp
  next
    case False
    then have ge: "uint rptr \<le> uint wptr" by (simp add: word_less_def)
    have "(uint wptr - uint rptr) mod uint ringszdw = uint wptr - uint rptr"
      using ge w' uint_ge_0 [of rptr] by (intro mod_pos_pos_trivial; linarith)
    then show ?thesis using False by simp
  qed
  have lo: "0 \<le> uint (mod_add ringszdw wptr (- rptr))"
    by simp
  have up': "uint (mod_add ringszdw wptr (- rptr)) < uint ringszdw"
    using m up by simp
  have wr: "uint (mod_add ringszdw wptr (- rptr))
      = (if wptr < rptr then uint ringszdw + uint wptr - uint rptr
         else uint wptr - uint rptr)"
    using m wrap by (rule trans)
  from m lo up' wr show ?thesis by (intro conjI)
qed

subsection \<open>Register reads\<close>

lemma ucast_lo_of_pair:
  "(ucast ((ucast (x :: u32) :: u64) OR push_bit 32 (ucast (y :: u32) :: u64)) :: u32) = x"
  by (rule bit_word_eqI) (auto simp: bit_simps dest: bit_imp_le_length)

lemma ucast_hi_of_pair:
  "(ucast (drop_bit 32 (ucast (x :: u32) :: u64)
      OR drop_bit 32 (push_bit 32 (ucast (y :: u32) :: u64))) :: u32) = y"
  by (rule bit_word_eqI) (auto simp: bit_simps dest: bit_imp_le_length)

lemma ucast_hi_of_single:
  "(ucast (drop_bit 32 (ucast (x :: u32) :: u64)) :: u32) = 0"
  by (rule bit_word_eqI) (auto simp: bit_simps dest: bit_imp_le_length)

lemma ucast_lo_of_single:
  "(ucast (ucast (x :: u32) :: u64) :: u32) = x"
  by (rule bit_word_eqI) (auto simp: bit_simps dest: bit_imp_le_length)

text \<open>
  C10. For a register name that resolves to the index \<open>reg\<close> (a nonzero index:
  \<open>regval64\<close> asserts it), \<open>regval64\<close> returns \<open>reg_val(reg)\<close> combined with
  \<open>reg_val(reg + 1)\<close> shifted left by 32 bits when \<open>gpu_id >= 500\<close>, and the
  zero-extended \<open>reg_val(reg)\<close> alone when \<open>gpu_id < 500\<close>. So the low half of the
  result is \<open>reg_val(reg)\<close>, and its high half is \<open>reg_val(reg + 1)\<close> or zero.
\<close>

theorem regval64_composition:
  assumes "regbase ex name = reg" and "reg \<noteq> 0"
  shows "\<exists>v. regval64 ex st name = Inr v
    \<and> v = (if gpu_id (options st) \<ge> 500
           then ucast (reg_val st reg) OR push_bit 32 (ucast (reg_val st (reg + 1)))
           else ucast (reg_val st reg))
    \<and> (ucast v :: u32) = reg_val st reg
    \<and> (ucast (drop_bit 32 v) :: u32)
        = (if gpu_id (options st) \<ge> 500 then reg_val st (reg + 1) else 0)"
  using assms
  by (simp add: regval64_def is_64b_def Let_def ucast_lo_of_pair ucast_hi_of_pair
      ucast_hi_of_single ucast_lo_of_single)

theorem regval64_composition_witness:
  "regbase \<lparr>regbase = (\<lambda>n. if n = ''CP_RB_BASE'' then 0x821 else 0),
            pkt_is_type4 = (\<lambda>_. False), pkt_is_type7 = (\<lambda>_. False),
            vsscanf = (\<lambda>_ _. ScanEOF)\<rparr> ''CP_RB_BASE'' = 0x821
   \<and> (0x821 :: u32) \<noteq> 0
   \<and> (\<exists>v. regval64
         \<lparr>regbase = (\<lambda>n. if n = ''CP_RB_BASE'' then 0x821 else 0),
          pkt_is_type4 = (\<lambda>_. False), pkt_is_type7 = (\<lambda>_. False),
          vsscanf = (\<lambda>_ _. ScanEOF)\<rparr>
         \<lparr>infile = [], lastline = None, pushedline = None, verbose = False,
          options = \<lparr>gpu_id = 630, ibs = (\<lambda>_. \<lparr>ib_base = 0, ib_rem = 0\<rparr>)\<rparr>,
          ringbuffers = [],
          regs = (\<lambda>r. if r = 0x821 then 0x1000 else if r = 0x822 then 1 else 0),
          effects = []\<rparr>
         ''CP_RB_BASE'' = Inr v \<and> v = 0x100001000)"
  using regval64_composition
    [of "\<lparr>regbase = (\<lambda>n. if n = ''CP_RB_BASE'' then 0x821 else 0),
          pkt_is_type4 = (\<lambda>_. False), pkt_is_type7 = (\<lambda>_. False),
          vsscanf = (\<lambda>_ _. ScanEOF)\<rparr>"
        "''CP_RB_BASE''" "0x821"
        "\<lparr>infile = [], lastline = None, pushedline = None, verbose = False,
          options = \<lparr>gpu_id = 630, ibs = (\<lambda>_. \<lparr>ib_base = 0, ib_rem = 0\<rparr>)\<rparr>,
          ringbuffers = [],
          regs = (\<lambda>r. if r = 0x821 then 0x1000 else if r = 0x822 then 1 else 0),
          effects = []\<rparr>"]
  by (simp add: reg_val_def)

subsection \<open>Line reader\<close>

lemma popline_after:
  assumes "reader_ok st" and "popline st = Inr (L, st1)"
  shows "pushedline st1 = None \<and> lastline st1 = Some L"
  using assms
  by (auto simp: popline_def reader_ok_def split: option.splits list.splits)

lemma popline_reader_ok:
  "reader_ok st \<Longrightarrow> popline st = Inr (L, st1) \<Longrightarrow> reader_ok st1"
  by (auto simp: popline_def reader_ok_def split: option.splits list.splits)

lemma pushline_reader_ok:
  "pushline st = Inr st1 \<Longrightarrow> reader_ok st1"
  by (auto simp: pushline_def reader_ok_def split: if_splits)

text \<open>
  C8. After \<open>popline\<close> has returned a line \<open>L\<close>, \<open>pushline\<close> succeeds and the next
  \<open>popline\<close> returns \<open>L\<close> again, leaving the reader in the state it had before the
  push; a second \<open>pushline\<close> without a \<open>popline\<close> in between fails its assertion.
\<close>

theorem pushline_popline_roundtrip:
  assumes "reader_ok st" and "popline st = Inr (L, st1)"
  shows "\<exists>st2. pushline st1 = Inr st2 \<and> popline st2 = Inr (L, st1)
    \<and> pushline st2 = Inl AssertFailed"
proof -
  from popline_after [OF assms]
  have p: "pushedline st1 = None" and l: "lastline st1 = Some L"
    by simp_all
  let ?st2 = "st1\<lparr>pushedline := lastline st1\<rparr>"
  have 1: "pushline st1 = Inr ?st2"
    using p by (simp add: pushline_def)
  have "?st2\<lparr>pushedline := None\<rparr> = st1"
    using p by simp
  then have 2: "popline ?st2 = Inr (L, st1)"
    using l by (simp add: popline_def)
  have 3: "pushline ?st2 = Inl AssertFailed"
    using l by (simp add: pushline_def)
  from 1 2 3 show ?thesis by blast
qed

theorem pushline_popline_roundtrip_witness:
  "reader_ok
      \<lparr>infile = [''bos:'' @ [newline]], lastline = None, pushedline = None, verbose = False,
       options = \<lparr>gpu_id = 630, ibs = (\<lambda>_. \<lparr>ib_base = 0, ib_rem = 0\<rparr>)\<rparr>,
       ringbuffers = [], regs = (\<lambda>_. 0), effects = []\<rparr>
   \<and> popline
      \<lparr>infile = [''bos:'' @ [newline]], lastline = None, pushedline = None, verbose = False,
       options = \<lparr>gpu_id = 630, ibs = (\<lambda>_. \<lparr>ib_base = 0, ib_rem = 0\<rparr>)\<rparr>,
       ringbuffers = [], regs = (\<lambda>_. 0), effects = []\<rparr>
     = Inr (''bos:'' @ [newline],
      \<lparr>infile = [], lastline = Some (''bos:'' @ [newline]), pushedline = None, verbose = False,
       options = \<lparr>gpu_id = 630, ibs = (\<lambda>_. \<lparr>ib_base = 0, ib_rem = 0\<rparr>)\<rparr>,
       ringbuffers = [], regs = (\<lambda>_. 0), effects = []\<rparr>)
   \<and> (\<exists>st2. pushline
      \<lparr>infile = [], lastline = Some (''bos:'' @ [newline]), pushedline = None, verbose = False,
       options = \<lparr>gpu_id = 630, ibs = (\<lambda>_. \<lparr>ib_base = 0, ib_rem = 0\<rparr>)\<rparr>,
       ringbuffers = [], regs = (\<lambda>_. 0), effects = []\<rparr> = Inr st2
     \<and> popline st2 = Inr (''bos:'' @ [newline],
      \<lparr>infile = [], lastline = Some (''bos:'' @ [newline]), pushedline = None, verbose = False,
       options = \<lparr>gpu_id = 630, ibs = (\<lambda>_. \<lparr>ib_base = 0, ib_rem = 0\<rparr>)\<rparr>,
       ringbuffers = [], regs = (\<lambda>_. 0), effects = []\<rparr>)
     \<and> pushline st2 = Inl AssertFailed)"
  using pushline_popline_roundtrip
    [of "\<lparr>infile = [''bos:'' @ [newline]], lastline = None, pushedline = None, verbose = False,
       options = \<lparr>gpu_id = 630, ibs = (\<lambda>_. \<lparr>ib_base = 0, ib_rem = 0\<rparr>)\<rparr>,
       ringbuffers = [], regs = (\<lambda>_. 0), effects = []\<rparr>"
        "''bos:'' @ [newline]"
        "\<lparr>infile = [], lastline = Some (''bos:'' @ [newline]), pushedline = None, verbose = False,
       options = \<lparr>gpu_id = 630, ibs = (\<lambda>_. \<lparr>ib_base = 0, ib_rem = 0\<rparr>)\<rparr>,
       ringbuffers = [], regs = (\<lambda>_. 0), effects = []\<rparr>"]
  by (simp add: reader_ok_def popline_def)

subsection \<open>Payload decoder\<close>

lemma digit85_char_of: "d < 85 \<Longrightarrow> digit85 (char_of (33 + d :: nat))"
  by (simp add: digit85_def)

lemma digit85_neq: "digit85 c \<Longrightarrow> c \<noteq> newline \<and> c \<noteq> space \<and> c \<noteq> CHR ''z''"
  by (auto simp: digit85_def)

lemma digit85_value: "d < 85 \<Longrightarrow> (word_of_int (c_char (char_of (33 + d :: nat)) - 33) :: u32) = of_nat d"
  by (simp add: c_char_def)

lemma base85_digits: "c \<in> set (base85 k v) \<Longrightarrow> digit85 c"
  by (induction k arbitrary: v) (auto simp: digit85_char_of)

lemma base85_length: "length (base85 k v) = k"
  by (induction k arbitrary: v) auto

lemma ascii85_group_base85:
  "ascii85_group (k + j) acc (base85 k v @ rest)
     = ascii85_group j (acc * 85 ^ k + of_nat (v mod 85 ^ k)) rest"
proof (induction k arbitrary: v j rest)
  case 0
  then show ?case by simp
next
  case (Suc k)
  let ?c = "char_of (33 + v mod 85 :: nat)"
  have nl: "?c \<noteq> newline" using digit85_neq [OF digit85_char_of [of "v mod 85"]] by simp
  have val: "(word_of_int (c_char ?c - 33) :: u32) = of_nat (v mod 85)"
    by (rule digit85_value) simp
  have "ascii85_group (Suc k + j) acc (base85 (Suc k) v @ rest)
      = ascii85_group (k + Suc j) acc (base85 k (v div 85) @ (?c # rest))"
    by simp
  also have "\<dots> = ascii85_group (Suc j) (acc * 85 ^ k + of_nat ((v div 85) mod 85 ^ k)) (?c # rest)"
    by (rule Suc.IH)
  also have "\<dots> = ascii85_group j ((acc * 85 ^ k + of_nat ((v div 85) mod 85 ^ k)) * 85 + of_nat (v mod 85)) rest"
    using nl val by simp
  also have "(acc * 85 ^ k + of_nat ((v div 85) mod 85 ^ k)) * 85 + of_nat (v mod 85)
      = acc * 85 ^ Suc k + of_nat (85 * ((v div 85) mod 85 ^ k) + v mod 85)"
    by (simp add: algebra_simps)
  also have "85 * ((v div 85) mod 85 ^ k) + v mod 85 = v mod 85 ^ Suc k"
    by (simp add: mod_mult2_eq)
  finally show ?case .
qed

lemma unat_lt_85_5: "unat (w :: u32) < 85 ^ 5"
proof -
  have "unat w < 2 ^ 32" using unsigned_less [of w] by simp
  also have "(2 :: nat) ^ 32 < 85 ^ 5" by simp
  finally show ?thesis .
qed

lemma ascii85_group_encode:
  "ascii85_group 5 0 (base85 5 (unat (w :: u32)) @ rest) = Inr (w, rest)"
proof -
  have "ascii85_group (5 + 0) 0 (base85 5 (unat w) @ rest)
      = ascii85_group 0 (0 * 85 ^ 5 + of_nat (unat w mod 85 ^ 5)) rest"
    by (rule ascii85_group_base85)
  moreover have "unat w mod 85 ^ 5 = unat w"
    using unat_lt_85_5 [of w] by (rule mod_less)
  ultimately show ?thesis by simp
qed

lemma encode_word_chars: "c \<in> set (encode_word w) \<Longrightarrow> c \<noteq> newline \<and> c \<noteq> space"
  using base85_digits digit85_neq by (auto simp: encode_word_def split: if_splits)

lemma encode_words_chars: "c \<in> set (encode_words ws) \<Longrightarrow> c \<noteq> newline \<and> c \<noteq> space"
  using encode_word_chars by (auto simp: encode_words_def)

lemma base85_5_Cons: "\<exists>c cs. base85 5 v = c # cs \<and> digit85 c"
proof -
  have "length (base85 5 v) = 5" by (rule base85_length)
  then obtain c cs where e: "base85 5 v = c # cs" by (cases "base85 5 v") auto
  then have "c \<in> set (base85 5 v)" by simp
  then have "digit85 c" by (rule base85_digits)
  with e show ?thesis by blast
qed

lemma ascii85_loop_word:
  assumes "idx < length buf"
  shows "ascii85_loop (encode_word w @ rest) buf idx = ascii85_loop rest (buf[idx := w]) (Suc idx)"
proof (cases "w = 0")
  case True
  then show ?thesis using assms by (simp add: encode_word_def)
next
  case False
  obtain c cs where e: "base85 5 (unat w) = c # cs" and d: "digit85 c"
    using base85_5_Cons by blast
  have g: "ascii85_group 5 0 (c # cs @ rest) = Inr (w, rest)"
    using ascii85_group_encode [of w rest] e by simp
  have "ascii85_loop (encode_word w @ rest) buf idx = ascii85_loop (c # cs @ rest) buf idx"
    using False e by (simp add: encode_word_def)
  also have "\<dots> = ascii85_loop rest (buf[idx := w]) (Suc idx)"
    using digit85_neq [OF d] g assms by (simp del: ascii85_group.simps)
  finally show ?thesis .
qed

lemma ascii85_loop_word_overflow:
  assumes "\<not> idx < length buf"
  shows "ascii85_loop (encode_word w @ rest) buf idx = Inl (OutOfBounds idx)"
proof (cases "w = 0")
  case True
  then show ?thesis using assms by (simp add: encode_word_def)
next
  case False
  obtain c cs where e: "base85 5 (unat w) = c # cs" and d: "digit85 c"
    using base85_5_Cons by blast
  have g: "ascii85_group 5 0 (c # cs @ rest) = Inr (w, rest)"
    using ascii85_group_encode [of w rest] e by simp
  have "ascii85_loop (encode_word w @ rest) buf idx = ascii85_loop (c # cs @ rest) buf idx"
    using False e by (simp add: encode_word_def)
  also have "\<dots> = Inl (OutOfBounds idx)"
    using digit85_neq [OF d] g assms by (simp del: ascii85_group.simps)
  finally show ?thesis .
qed

lemma ascii85_loop_encode:
  "idx + length ws \<le> length buf \<Longrightarrow>
   ascii85_loop (encode_words ws @ [newline]) buf idx
     = Inr (take idx buf @ ws @ drop (idx + length ws) buf)"
proof (induction ws arbitrary: buf idx)
  case Nil
  then show ?case by (simp add: encode_words_def)
next
  case (Cons w ws)
  then have i: "idx < length buf" and j: "Suc idx + length ws \<le> length (buf[idx := w])"
    by simp_all
  have "ascii85_loop (encode_words (w # ws) @ [newline]) buf idx
      = ascii85_loop (encode_word w @ (encode_words ws @ [newline])) buf idx"
    by (simp add: encode_words_def)
  also have "\<dots> = ascii85_loop (encode_words ws @ [newline]) (buf[idx := w]) (Suc idx)"
    using i by (rule ascii85_loop_word)
  also have "\<dots> = Inr (take (Suc idx) (buf[idx := w]) @ ws @ drop (Suc idx + length ws) (buf[idx := w]))"
    using j by (rule Cons.IH)
  also have "take (Suc idx) (buf[idx := w]) = take idx buf @ [w]"
    using i by (simp add: take_Suc_conv_app_nth)
  also have "drop (Suc idx + length ws) (buf[idx := w]) = drop (idx + length (w # ws)) buf"
    by simp
  finally show ?case by simp
qed

lemma calloc_words:
  assumes "uint (n :: u32) < 1073741824"
  shows "unat (4 * n) div 4 = unat n"
proof -
  have "uint (4 * n) = (4 * uint n) mod 4294967296"
    by (simp add: uint_word_ariths)
  also have "\<dots> = 4 * uint n"
    using assms uint_ge_0 [of n] by (intro mod_pos_pos_trivial; linarith)
  finally have "uint (4 * n) div 4 = uint n" by simp
  then have "int (unat (4 * n) div 4) = int (unat n)"
    by (simp add: zdiv_int)
  then show ?thesis by (rule int_int_eq [THEN iffD1])
qed

lemma dropWhile_payload:
  "dropWhile (\<lambda>c. c = space) (payload_line k ws) = encode_words ws @ [newline]"
proof -
  have "dropWhile (\<lambda>c. c = space) (encode_words ws @ [newline]) = encode_words ws @ [newline]"
    using encode_words_chars [of _ ws]
    by (cases "encode_words ws") auto
  moreover have "dropWhile (\<lambda>c. c = space) (replicate (Suc k) space @ (encode_words ws @ [newline]))
      = dropWhile (\<lambda>c. c = space) (encode_words ws @ [newline])"
    by (rule dropWhile_append2) auto
  ultimately show ?thesis
    unfolding payload_line_def by simp
qed

lemma popline_ascii85_payload:
  assumes p: "popline st = Inr (payload_line k ws, st1)"
    and n: "uint n < 1073741824" and l: "length ws \<le> unat n"
  shows "popline_ascii85 n st = Inr (ws @ replicate (unat n - length ws) 0, st1)"
proof -
  have h: "payload_line k ws \<noteq> [] \<and> hd (payload_line k ws) = space"
    by (simp add: payload_line_def)
  have "ascii85_loop (encode_words ws @ [newline]) (replicate (unat n) 0) 0
      = Inr (take 0 (replicate (unat n) 0) @ ws @ drop (0 + length ws) (replicate (unat n) 0))"
    using l by (intro ascii85_loop_encode) simp
  then have "ascii85_loop (encode_words ws @ [newline]) (replicate (unat n) 0) 0
      = Inr (ws @ replicate (unat n - length ws) 0)"
    by simp
  then show ?thesis
    using p h by (simp add: popline_ascii85_def andthen_def calloc_words [OF n] dropWhile_payload)
qed

lemma ascii85_loop_encode_overflow:
  "idx \<le> length buf \<Longrightarrow> length buf < idx + length ws \<Longrightarrow>
   ascii85_loop (encode_words ws @ [newline]) buf idx = Inl (OutOfBounds (length buf))"
proof (induction ws arbitrary: buf idx)
  case Nil
  then show ?case by simp
next
  case (Cons w ws)
  have split: "ascii85_loop (encode_words (w # ws) @ [newline]) buf idx
      = ascii85_loop (encode_word w @ (encode_words ws @ [newline])) buf idx"
    by (simp add: encode_words_def)
  show ?case
  proof (cases "idx < length buf")
    case True
    have "ascii85_loop (encode_word w @ (encode_words ws @ [newline])) buf idx
        = ascii85_loop (encode_words ws @ [newline]) (buf[idx := w]) (Suc idx)"
      using True by (rule ascii85_loop_word)
    also have "\<dots> = Inl (OutOfBounds (length (buf[idx := w])))"
      using True Cons.prems by (intro Cons.IH) simp_all
    finally show ?thesis using split by simp
  next
    case False
    with Cons.prems(1) have e: "idx = length buf" by simp
    have "ascii85_loop (encode_word w @ (encode_words ws @ [newline])) buf idx
        = Inl (OutOfBounds idx)"
      using False by (rule ascii85_loop_word_overflow)
    then show ?thesis using split e by simp
  qed
qed

lemma popline_ascii85_payload_overflow:
  assumes p: "popline st = Inr (payload_line k ws, st1)"
    and n: "uint n < 1073741824" and l: "unat n < length ws"
  shows "popline_ascii85 n st = Inl (OutOfBounds (unat n))"
proof -
  have h: "payload_line k ws \<noteq> [] \<and> hd (payload_line k ws) = space"
    by (simp add: payload_line_def)
  have "ascii85_loop (encode_words ws @ [newline]) (replicate (unat n) 0) 0
      = Inl (OutOfBounds (length (replicate (unat n) (0 :: u32))))"
    using l by (intro ascii85_loop_encode_overflow) simp_all
  then have "ascii85_loop (encode_words ws @ [newline]) (replicate (unat n) 0) 0
      = Inl (OutOfBounds (unat n))"
    by simp
  then show ?thesis
    using p h by (simp add: popline_ascii85_def andthen_def calloc_words [OF n] dropWhile_payload)
qed

lemma payload_line_example: "payload_line (Suc 0) [2, 0] = ''  !!!!#z'' @ [newline]"
  by code_simp

lemma payload_line_example3: "payload_line (Suc 0) [2, 0, 7] = ''  !!!!#z!!!!('' @ [newline]"
  by code_simp

text \<open>
  C2. A payload line written by the encoder for the words \<open>ws\<close> (fewer than \<open>2^30\<close> of
  them, so that the byte size \<open>4 * N\<close> of the request is a 32-bit number), read with
  \<open>popline_ascii85(N)\<close> for \<open>N = length ws\<close>, gives back exactly \<open>ws\<close>, the all-zero
  words written as \<open>z\<close> included.
\<close>

theorem popline_ascii85_roundtrip:
  assumes "popline st = Inr (payload_line k ws, st1)"
    and "length ws < 1073741824"
  shows "popline_ascii85 (of_nat (length ws)) st = Inr (ws, st1)"
proof -
  have u: "unat (of_nat (length ws) :: u32) = length ws"
    using assms(2) by (simp add: unat_of_nat take_bit_nat_eq_self)
  then have "uint (of_nat (length ws) :: u32) = int (length ws)"
    by (simp add: uint_nat)
  then have n: "uint (of_nat (length ws) :: u32) < 1073741824"
    using assms(2) by simp
  have "popline_ascii85 (of_nat (length ws)) st
      = Inr (ws @ replicate (unat (of_nat (length ws) :: u32) - length ws) 0, st1)"
    using assms(1) n by (rule popline_ascii85_payload) (simp add: u)
  then show ?thesis by (simp add: u)
qed

theorem popline_ascii85_roundtrip_witness:
  "popline
      \<lparr>infile = [''  !!!!#z'' @ [newline]], lastline = None, pushedline = None, verbose = False,
       options = \<lparr>gpu_id = 630, ibs = (\<lambda>_. \<lparr>ib_base = 0, ib_rem = 0\<rparr>)\<rparr>,
       ringbuffers = [], regs = (\<lambda>_. 0), effects = []\<rparr>
     = Inr (payload_line 1 [2, 0],
      \<lparr>infile = [], lastline = Some (''  !!!!#z'' @ [newline]), pushedline = None,
       verbose = False,
       options = \<lparr>gpu_id = 630, ibs = (\<lambda>_. \<lparr>ib_base = 0, ib_rem = 0\<rparr>)\<rparr>,
       ringbuffers = [], regs = (\<lambda>_. 0), effects = []\<rparr>)
   \<and> length [2 :: u32, 0] < 1073741824
   \<and> popline_ascii85 (of_nat (length [2 :: u32, 0]))
      \<lparr>infile = [''  !!!!#z'' @ [newline]], lastline = None, pushedline = None, verbose = False,
       options = \<lparr>gpu_id = 630, ibs = (\<lambda>_. \<lparr>ib_base = 0, ib_rem = 0\<rparr>)\<rparr>,
       ringbuffers = [], regs = (\<lambda>_. 0), effects = []\<rparr>
     = Inr ([2, 0],
      \<lparr>infile = [], lastline = Some (''  !!!!#z'' @ [newline]), pushedline = None,
       verbose = False,
       options = \<lparr>gpu_id = 630, ibs = (\<lambda>_. \<lparr>ib_base = 0, ib_rem = 0\<rparr>)\<rparr>,
       ringbuffers = [], regs = (\<lambda>_. 0), effects = []\<rparr>)"
  using popline_ascii85_roundtrip
    [of "\<lparr>infile = [''  !!!!#z'' @ [newline]], lastline = None, pushedline = None, verbose = False,
       options = \<lparr>gpu_id = 630, ibs = (\<lambda>_. \<lparr>ib_base = 0, ib_rem = 0\<rparr>)\<rparr>,
       ringbuffers = [], regs = (\<lambda>_. 0), effects = []\<rparr>"
        1 "[2, 0]"
        "\<lparr>infile = [], lastline = Some (''  !!!!#z'' @ [newline]), pushedline = None,
       verbose = False,
       options = \<lparr>gpu_id = 630, ibs = (\<lambda>_. \<lparr>ib_base = 0, ib_rem = 0\<rparr>)\<rparr>,
       ringbuffers = [], regs = (\<lambda>_. 0), effects = []\<rparr>"]
  by (simp add: popline_def payload_line_example)

text \<open>
  C3, on the code. \<open>popline_ascii85(N)\<close> has no stop at \<open>N\<close> words: it decodes
  every group up to the newline. With the request \<open>N = 1\<close> and the payload \<open>zz\<close> it
  goes on to the second group and stores it at index 1 of the one-word buffer.
\<close>

theorem popline_ascii85_overrun:
  "popline_ascii85 1
     \<lparr>infile = [''  zz'' @ [newline]], lastline = None, pushedline = None, verbose = False,
      options = \<lparr>gpu_id = 630, ibs = (\<lambda>_. \<lparr>ib_base = 0, ib_rem = 0\<rparr>)\<rparr>,
      ringbuffers = [], regs = (\<lambda>_. 0), effects = []\<rparr>
   = Inl (OutOfBounds 1)"
  by (simp add: popline_ascii85_def popline_def andthen_def)

text \<open>
  C3, what holds. \<open>popline_ascii85(N)\<close>, for \<open>N < 2^30\<close>, on a payload line that
  encodes the words \<open>ws\<close>: the loop runs to the newline and stores the word of group
  \<open>k\<close> at \<open>buf[k]\<close>, whatever \<open>N\<close> is. When the line encodes at most \<open>N\<close> words, the
  call returns the buffer of \<open>N\<close> words holding \<open>ws\<close> followed by zeros, and the line
  is consumed. When it encodes more than \<open>N\<close> words, the loop does not stop after \<open>N\<close>
  of them: it goes on to the store of the next word at index \<open>N\<close>, one past the end of
  the buffer, which is where the run leaves defined behaviour.
\<close>

theorem popline_ascii85_within_buffer:
  assumes "uint n < 1073741824"
    and "popline st = Inr (payload_line k ws, st1)"
  shows "popline_ascii85 n st =
     (if length ws \<le> unat n then Inr (ws @ replicate (unat n - length ws) 0, st1)
      else Inl (OutOfBounds (unat n)))"
proof (cases "length ws \<le> unat n")
  case True
  with popline_ascii85_payload [OF assms(2) assms(1)] show ?thesis by simp
next
  case False
  then have "unat n < length ws" by simp
  with popline_ascii85_payload_overflow [OF assms(2) assms(1)] False show ?thesis by simp
qed

theorem popline_ascii85_within_buffer_witness:
  "uint (3 :: u32) < 1073741824
   \<and> popline
      \<lparr>infile = [''  !!!!#z'' @ [newline]], lastline = None, pushedline = None, verbose = False,
       options = \<lparr>gpu_id = 630, ibs = (\<lambda>_. \<lparr>ib_base = 0, ib_rem = 0\<rparr>)\<rparr>,
       ringbuffers = [], regs = (\<lambda>_. 0), effects = []\<rparr>
     = Inr (payload_line 1 [2, 0],
      \<lparr>infile = [], lastline = Some (''  !!!!#z'' @ [newline]), pushedline = None,
       verbose = False,
       options = \<lparr>gpu_id = 630, ibs = (\<lambda>_. \<lparr>ib_base = 0, ib_rem = 0\<rparr>)\<rparr>,
       ringbuffers = [], regs = (\<lambda>_. 0), effects = []\<rparr>)
   \<and> popline_ascii85 3
      \<lparr>infile = [''  !!!!#z'' @ [newline]], lastline = None, pushedline = None, verbose = False,
       options = \<lparr>gpu_id = 630, ibs = (\<lambda>_. \<lparr>ib_base = 0, ib_rem = 0\<rparr>)\<rparr>,
       ringbuffers = [], regs = (\<lambda>_. 0), effects = []\<rparr>
     = Inr ([2, 0, 0],
      \<lparr>infile = [], lastline = Some (''  !!!!#z'' @ [newline]), pushedline = None,
       verbose = False,
       options = \<lparr>gpu_id = 630, ibs = (\<lambda>_. \<lparr>ib_base = 0, ib_rem = 0\<rparr>)\<rparr>,
       ringbuffers = [], regs = (\<lambda>_. 0), effects = []\<rparr>)
   \<and> uint (2 :: u32) < 1073741824
   \<and> popline
      \<lparr>infile = [''  !!!!#z!!!!('' @ [newline]], lastline = None, pushedline = None,
       verbose = False,
       options = \<lparr>gpu_id = 630, ibs = (\<lambda>_. \<lparr>ib_base = 0, ib_rem = 0\<rparr>)\<rparr>,
       ringbuffers = [], regs = (\<lambda>_. 0), effects = []\<rparr>
     = Inr (payload_line 1 [2, 0, 7],
      \<lparr>infile = [], lastline = Some (''  !!!!#z!!!!('' @ [newline]), pushedline = None,
       verbose = False,
       options = \<lparr>gpu_id = 630, ibs = (\<lambda>_. \<lparr>ib_base = 0, ib_rem = 0\<rparr>)\<rparr>,
       ringbuffers = [], regs = (\<lambda>_. 0), effects = []\<rparr>)
   \<and> popline_ascii85 2
      \<lparr>infile = [''  !!!!#z!!!!('' @ [newline]], lastline = None, pushedline = None,
       verbose = False,
       options = \<lparr>gpu_id = 630, ibs = (\<lambda>_. \<lparr>ib_base = 0, ib_rem = 0\<rparr>)\<rparr>,
       ringbuffers = [], regs = (\<lambda>_. 0), effects = []\<rparr>
     = Inl (OutOfBounds 2)"
proof -
  let ?o = "\<lparr>gpu_id = 630, ibs = (\<lambda>_. \<lparr>ib_base = 0, ib_rem = 0\<rparr>)\<rparr>"
  let ?a = "\<lparr>infile = [''  !!!!#z'' @ [newline]], lastline = None, pushedline = None,
       verbose = False, options = ?o, ringbuffers = [], regs = (\<lambda>_. 0), effects = []\<rparr>"
  let ?a1 = "\<lparr>infile = [], lastline = Some (''  !!!!#z'' @ [newline]), pushedline = None,
       verbose = False, options = ?o, ringbuffers = [], regs = (\<lambda>_. 0), effects = []\<rparr>"
  let ?b = "\<lparr>infile = [''  !!!!#z!!!!('' @ [newline]], lastline = None, pushedline = None,
       verbose = False, options = ?o, ringbuffers = [], regs = (\<lambda>_. 0), effects = []\<rparr>"
  let ?b1 = "\<lparr>infile = [], lastline = Some (''  !!!!#z!!!!('' @ [newline]), pushedline = None,
       verbose = False, options = ?o, ringbuffers = [], regs = (\<lambda>_. 0), effects = []\<rparr>"
  have n3: "uint (3 :: u32) < 1073741824" and n2: "uint (2 :: u32) < 1073741824"
    by simp_all
  have pa: "popline ?a = Inr (payload_line 1 [2, 0], ?a1)"
    by (simp add: popline_def payload_line_example)
  have pb: "popline ?b = Inr (payload_line 1 [2, 0, 7], ?b1)"
    by (simp add: popline_def payload_line_example3)
  have ra: "popline_ascii85 3 ?a = Inr ([2, 0, 0], ?a1)"
    using popline_ascii85_within_buffer [OF n3 pa] by simp
  have rb: "popline_ascii85 2 ?b = Inl (OutOfBounds 2)"
    using popline_ascii85_within_buffer [OF n2 pb] by simp
  from n3 pa ra n2 pb rb show ?thesis by (intro conjI)
qed

subsection \<open>The bos section\<close>

lemma count_iova: "count_conversions ''  - iova: %lx'' 0 0 0 = 1"
  by code_simp

lemma count_size: "count_conversions ''    size: %u'' 0 0 0 = 1"
  by code_simp

lemma startswith_take:
  assumes "startswith line s" and "n \<le> length s"
  shows "take n line = take n s"
proof -
  have "take n (take (length s) line) = take n line"
    using assms(2) by (simp add: min.absorb1)
  moreover have "take (length s) line = s"
    using assms(1) by (simp add: startswith_def)
  ultimately show ?thesis by (simp only:)
qed

lemma data_not_iova:
  assumes "startswith line ''    data: !!ascii85 |''"
  shows "\<not> startswith line ''  - iova:''"
proof
  assume "startswith line ''  - iova:''"
  then have "take 3 line = take 3 ''  - iova:''" by (rule startswith_take) simp
  moreover have "take 3 line = take 3 ''    data: !!ascii85 |''"
    using assms by (rule startswith_take) simp
  ultimately show False by simp
qed

lemma data_not_size:
  assumes "startswith line ''    data: !!ascii85 |''"
  shows "\<not> startswith line ''    size:''"
proof
  assume "startswith line ''    size:''"
  then have "take 5 line = take 5 ''    size:''" by (rule startswith_take) simp
  moreover have "take 5 line = take 5 ''    data: !!ascii85 |''"
    using assms by (rule startswith_take) simp
  ultimately show False by simp
qed

lemma popline_pending:
  "popline st = Inr (line, st1) \<Longrightarrow> pending_lines st = line # pending_lines st1"
  by (auto simp: popline_def pending_lines_def split: option.splits list.splits)

lemma popline_fault: "popline st = Inl e \<Longrightarrow> e = Exit 0"
  by (auto simp: popline_def split: option.splits list.splits)

lemma pushline_fault: "pushline st = Inl e \<Longrightarrow> e = AssertFailed"
  by (auto simp: pushline_def split: if_splits)

lemma ascii85_group_fault: "ascii85_group n accum line = Inl e \<Longrightarrow> e = UnterminatedLine"
  by (induction n accum line rule: ascii85_group.induct) (auto split: if_splits)

lemma pending_emit [simp]: "pending_lines (emit e st) = pending_lines st"
  by (simp add: pending_lines_def emit_def)

lemma ascii85_loop_fault:
  "ascii85_loop line buf idx = Inl e \<Longrightarrow> e = UnterminatedLine \<or> (\<exists>i. e = OutOfBounds i)"
proof (induction line buf idx rule: ascii85_loop.induct)
  case (1 buf idx)
  then show ?case by simp
next
  case (2 c cs buf idx)
  show ?case
  proof (cases "c = newline")
    case True
    with "2.prems" show ?thesis by simp
  next
    case nl: False
    show ?thesis
    proof (cases "c = CHR ''z''")
      case True
      show ?thesis
      proof (cases "idx < length buf")
        case i: True
        with nl True "2.prems" have "ascii85_loop cs (buf[idx := 0]) (Suc idx) = Inl e"
          by simp
        from "2.IH"(1) [OF nl True i this] show ?thesis .
      next
        case False
        with nl True "2.prems" show ?thesis by auto
      qed
    next
      case z: False
      show ?thesis
      proof (cases "ascii85_group 5 0 (c # cs)")
        case (Inl f)
        with nl z "2.prems" have "e = f" by (simp del: ascii85_group.simps)
        with Inl ascii85_group_fault show ?thesis by blast
      next
        case (Inr x)
        obtain accum rest where x: "x = (accum, rest)" by (cases x)
        show ?thesis
        proof (cases "idx < length buf")
          case i: True
          with nl z Inr x "2.prems"
          have "ascii85_loop rest (buf[idx := accum]) (Suc idx) = Inl e"
            by (simp del: ascii85_group.simps)
          from "2.IH"(2) [OF nl z Inr x [symmetric] i this] show ?thesis .
        next
          case False
          with nl z Inr x "2.prems" show ?thesis by (auto simp del: ascii85_group.simps)
        qed
      qed
    qed
  qed
qed

lemma popline_ascii85_fault:
  assumes "popline_ascii85 n st = Inl e"
  shows "e \<noteq> ParseError fmt"
proof (cases "popline st")
  case (Inl f)
  with assms have "e = f" by (simp add: popline_ascii85_def andthen_def)
  with Inl popline_fault show ?thesis by blast
next
  case (Inr x)
  obtain line st1 where x: "x = (line, st1)" by (cases x)
  show ?thesis
  proof (cases "line = [] \<or> hd line \<noteq> space")
    case True
    with Inr x assms show ?thesis
      by (auto simp: popline_ascii85_def andthen_def)
  next
    case False
    with Inr x assms have
      "ascii85_loop (dropWhile (\<lambda>c. c = space) line) (replicate (unat (4 * n) div 4) 0) 0 = Inl e"
      by (auto simp: popline_ascii85_def andthen_def split: sum.splits)
    from ascii85_loop_fault [OF this] show ?thesis by auto
  qed
qed

lemma popline_ascii85_pending:
  assumes "popline_ascii85 n st = Inr (buf, st1)"
  shows "set (pending_lines st1) \<subseteq> set (pending_lines st)"
proof -
  from assms obtain line where "popline st = Inr (line, st1)"
    by (auto simp: popline_ascii85_def andthen_def split: sum.splits prod.splits if_splits)
  from popline_pending [OF this] show ?thesis by auto
qed

lemma parseline_scans:
  assumes "bos_line_scans ex line"
  shows "startswith line ''  - iova:'' \<Longrightarrow> \<exists>vs. parseline ex line ''  - iova: %lx'' = Inr vs"
    and "startswith line ''    size:'' \<Longrightarrow> \<exists>vs. parseline ex line ''    size: %u'' = Inr vs"
  using assms
  by (simp_all add: bos_line_scans_def parseline_def count_iova count_size Let_def
      del: count_conversions.simps)

lemma decode_bos_loop_data_step:
  assumes pl: "popline st = Inr (line, st1)"
    and ind: "line \<noteq> [] \<and> hd line = space"
    and dat: "startswith line ''    data: !!ascii85 |''"
  shows "decode_bos_loop ex sz iova st =
     (case popline_ascii85 (sz div 4) st1 of
        Inl e \<Rightarrow> Inl e
      | Inr (buf, st2) \<Rightarrow>
          decode_bos_loop ex sz iova
            (emit (AddBuffer iova sz buf)
               (if verbose st2 then emit (DumpHexAscii buf sz) st2 else st2)))"
  using pl ind dat data_not_iova [OF dat] data_not_size [OF dat]
  by (subst decode_bos_loop.simps) simp

lemma decode_bos_loop_no_parse_error:
  "\<forall>line \<in> set (pending_lines st). bos_line_scans ex line \<Longrightarrow>
   decode_bos_loop ex sz iova st \<noteq> Inl (ParseError fmt)"
proof (induction ex sz iova st rule: decode_bos_loop.induct)
  case (1 ex sz iova st)
  note ok = "1.prems"
  show ?case
  proof (cases "popline st")
    case (Inl e)
    then have "decode_bos_loop ex sz iova st = Inl e"
      by (subst decode_bos_loop.simps) simp
    with popline_fault [OF Inl] show ?thesis by simp
  next
    case (Inr b)
    obtain line st1 where b: "(line, st1) = b" by (cases b) auto
    with Inr have pl: "popline st = Inr (line, st1)" by simp
    from popline_pending [OF pl] ok
    have okl: "bos_line_scans ex line"
      and ok1: "\<forall>l \<in> set (pending_lines st1). bos_line_scans ex l"
      by simp_all
    show ?thesis
    proof (cases "line = [] \<or> hd line \<noteq> space")
      case True
      with pl have "decode_bos_loop ex sz iova st = pushline st1"
        by (subst decode_bos_loop.simps) simp
      then show ?thesis using pushline_fault [of st1] by auto
    next
      case ind: False
      show ?thesis
      proof (cases "startswith line ''  - iova:''")
        case True
        from parseline_scans(1) [OF okl True] obtain vs where
          ps: "parseline ex line ''  - iova: %lx'' = Inr vs" by blast
        have "decode_bos_loop ex sz iova st
            = decode_bos_loop ex sz (case vs of [] \<Rightarrow> iova | v # _ \<Rightarrow> v) (emit (Printf line) st1)"
          using pl ind True ps by (subst decode_bos_loop.simps) simp
        moreover have "decode_bos_loop ex sz (case vs of [] \<Rightarrow> iova | v # _ \<Rightarrow> v) (emit (Printf line) st1)
            \<noteq> Inl (ParseError fmt)"
          using "1.IH"(1) [OF Inr b ind True ps] ok1 by simp
        ultimately show ?thesis by simp
      next
        case ni: False
        show ?thesis
        proof (cases "startswith line ''    size:''")
          case True
          from parseline_scans(2) [OF okl True] obtain vs where
            ps: "parseline ex line ''    size: %u'' = Inr vs" by blast
          have "decode_bos_loop ex sz iova st
              = decode_bos_loop ex (case vs of [] \<Rightarrow> sz | v # _ \<Rightarrow> ucast v) iova (emit (Printf line) st1)"
            using pl ind ni True ps by (subst decode_bos_loop.simps) simp
          moreover have "decode_bos_loop ex (case vs of [] \<Rightarrow> sz | v # _ \<Rightarrow> ucast v) iova (emit (Printf line) st1)
              \<noteq> Inl (ParseError fmt)"
            using "1.IH"(2) [OF Inr b ind ni True ps] ok1 by simp
          ultimately show ?thesis by simp
        next
          case ns: False
          show ?thesis
          proof (cases "startswith line ''    data: !!ascii85 |''")
            case True
            show ?thesis
            proof (cases "popline_ascii85 (sz div 4) st1")
              case (Inl e)
              then have "decode_bos_loop ex sz iova st = Inl e"
                using pl ind ni ns True by (subst decode_bos_loop.simps) simp
              with popline_ascii85_fault [OF Inl] show ?thesis by simp
            next
              case pa: (Inr ba)
              obtain buf st2 where ba: "(buf, st2) = ba" by (cases ba) auto
              let ?st3 = "emit (AddBuffer iova sz buf)
                  (if verbose st2 then emit (DumpHexAscii buf sz) st2 else st2)"
              have "popline_ascii85 (sz div 4) st1 = Inr (buf, st2)" using pa ba by simp
              from popline_ascii85_pending [OF this] ok1
              have ok3: "\<forall>l \<in> set (pending_lines ?st3). bos_line_scans ex l"
                by auto
              have "decode_bos_loop ex sz iova st = decode_bos_loop ex sz iova ?st3"
                using pl ind ni ns True pa ba by (subst decode_bos_loop.simps) auto
              moreover have "decode_bos_loop ex sz iova ?st3 \<noteq> Inl (ParseError fmt)"
                using "1.IH"(3) [OF Inr b ind ni ns True pa ba] ok3 by simp
              ultimately show ?thesis by simp
            qed
          next
            case nd: False
            have "decode_bos_loop ex sz iova st = decode_bos_loop ex sz iova (emit (Printf line) st1)"
              using pl ind ni ns nd by (subst decode_bos_loop.simps) simp
            moreover have "decode_bos_loop ex sz iova (emit (Printf line) st1)
                \<noteq> Inl (ParseError fmt)"
              using "1.IH"(4) [OF Inr b ind ni ns nd] ok1 by simp
            ultimately show ?thesis by simp
          qed
        qed
      qed
    qed
  qed
qed

lemma size_not_iova:
  assumes "startswith line ''    size:''"
  shows "\<not> startswith line ''  - iova:''"
proof
  assume "startswith line ''  - iova:''"
  then have "take 3 line = take 3 ''  - iova:''" by (rule startswith_take) simp
  moreover have "take 3 line = take 3 ''    size:''"
    using assms by (rule startswith_take) simp
  ultimately show False by simp
qed

lemma data_indented:
  assumes "startswith line ''    data: !!ascii85 |''"
  shows "line \<noteq> [] \<and> hd line = space"
proof -
  have "take 1 line = take 1 ''    data: !!ascii85 |''"
    using assms by (rule startswith_take) simp
  then show ?thesis by (cases line) simp_all
qed

lemma parseline_values:
  assumes "parseline ex line fmt = Inr vs"
  shows "vs = (case vsscanf ex line fmt of ScanEOF \<Rightarrow> [] | Scanned ws \<Rightarrow> ws)"
  using assms by (simp add: parseline_def Let_def split: if_splits)

lemma decode_bos_loop_header_step:
  assumes pl: "popline st = Inr (line, st1)"
    and ind: "line \<noteq> [] \<and> hd line = space"
    and nd: "\<not> startswith line ''    data: !!ascii85 |''"
    and sc: "bos_line_scans ex line"
  shows "decode_bos_loop ex sz iova st =
     decode_bos_loop ex (size_after ex sz [line]) (iova_after ex iova [line])
       (emit (Printf line) st1)"
proof (cases "startswith line ''  - iova:''")
  case True
  from parseline_scans(1) [OF sc True] obtain vs where
    ps: "parseline ex line ''  - iova: %lx'' = Inr vs" by blast
  have "decode_bos_loop ex sz iova st
      = decode_bos_loop ex sz (case vs of [] \<Rightarrow> iova | v # _ \<Rightarrow> v) (emit (Printf line) st1)"
    using pl ind True ps by (subst decode_bos_loop.simps) simp
  moreover have "iova_after ex iova [line] = (case vs of [] \<Rightarrow> iova | v # _ \<Rightarrow> v)"
    using True parseline_values [OF ps] by (simp split: scan.splits list.splits)
  moreover have "size_after ex sz [line] = sz"
    using True by simp
  ultimately show ?thesis by simp
next
  case ni: False
  show ?thesis
  proof (cases "startswith line ''    size:''")
    case True
    from parseline_scans(2) [OF sc True] obtain vs where
      ps: "parseline ex line ''    size: %u'' = Inr vs" by blast
    have "decode_bos_loop ex sz iova st
        = decode_bos_loop ex (case vs of [] \<Rightarrow> sz | v # _ \<Rightarrow> ucast v) iova (emit (Printf line) st1)"
      using pl ind ni True ps by (subst decode_bos_loop.simps) simp
    moreover have "size_after ex sz [line] = (case vs of [] \<Rightarrow> sz | v # _ \<Rightarrow> ucast v)"
      using ni True parseline_values [OF ps] by (simp split: scan.splits list.splits)
    moreover have "iova_after ex iova [line] = iova"
      using ni by simp
    ultimately show ?thesis by simp
  next
    case ns: False
    have "decode_bos_loop ex sz iova st = decode_bos_loop ex sz iova (emit (Printf line) st1)"
      using pl ind ni ns nd by (subst decode_bos_loop.simps) simp
    moreover have "size_after ex sz [line] = sz" "iova_after ex iova [line] = iova"
      using ni ns by simp_all
    ultimately show ?thesis by simp
  qed
qed

lemma size_after_Cons: "size_after ex sz (l # ls) = size_after ex (size_after ex sz [l]) ls"
  by simp

lemma iova_after_Cons: "iova_after ex iova (l # ls) = iova_after ex (iova_after ex iova [l]) ls"
  by simp

lemma size_after_append:
  "size_after ex sz (xs @ ys) = size_after ex (size_after ex sz xs) ys"
  by (induction xs arbitrary: sz) simp_all

lemma size_after_no_size:
  "\<forall>l \<in> set ls. \<not> startswith l ''    size:'' \<Longrightarrow> size_after ex sz ls = sz"
  by (induction ls arbitrary: sz) simp_all

lemma size_after_last_size:
  assumes "startswith sl ''    size:''"
    and "vsscanf ex sl ''    size: %u'' = Scanned [v]"
    and "\<forall>l \<in> set ls2. \<not> startswith l ''    size:''"
  shows "size_after ex sz (ls1 @ sl # ls2) = ucast v"
proof -
  have "size_after ex sz (ls1 @ sl # ls2)
      = size_after ex (size_after ex (size_after ex sz ls1) [sl]) ls2"
    by (simp add: size_after_append)
  also have "\<dots> = size_after ex (size_after ex sz ls1) [sl]"
    using assms(3) by (rule size_after_no_size)
  also have "\<dots> = ucast v"
    using assms(1,2) size_not_iova [OF assms(1)] by simp
  finally show ?thesis .
qed

lemma decode_bos_loop_headers:
  assumes "\<forall>l \<in> set ls. l \<noteq> [] \<and> hd l = space
             \<and> \<not> startswith l ''    data: !!ascii85 |'' \<and> bos_line_scans ex l"
    and "startswith dline ''    data: !!ascii85 |''"
    and "pushedline st = None" and "infile st = ls @ dline # rest"
  shows "decode_bos_loop ex sz iova st =
      (case popline_ascii85 (size_after ex sz ls div 4)
              (st\<lparr>infile := rest, lastline := Some dline,
                  effects := effects st @ map Printf ls\<rparr>) of
         Inl e \<Rightarrow> Inl e
       | Inr (buf, st2) \<Rightarrow>
           decode_bos_loop ex (size_after ex sz ls) (iova_after ex iova ls)
             (emit (AddBuffer (iova_after ex iova ls) (size_after ex sz ls) buf)
                (if verbose st2 then emit (DumpHexAscii buf (size_after ex sz ls)) st2
                 else st2)))"
  using assms
proof (induction ls arbitrary: st sz iova)
  case Nil
  let ?st1 = "st\<lparr>infile := rest, lastline := Some dline\<rparr>"
  have pl: "popline st = Inr (dline, ?st1)"
    using Nil.prems(3,4) by (simp add: popline_def)
  have e: "st\<lparr>infile := rest, lastline := Some dline, effects := effects st @ map Printf []\<rparr>
      = ?st1"
    by simp
  show ?case
    unfolding e size_after.simps(1) iova_after.simps(1)
    using pl data_indented [OF Nil.prems(2)] Nil.prems(2)
    by (rule decode_bos_loop_data_step)
next
  case (Cons l ls)
  let ?st1 = "st\<lparr>infile := ls @ dline # rest, lastline := Some l\<rparr>"
  let ?st2 = "emit (Printf l) ?st1"
  have pl: "popline st = Inr (l, ?st1)"
    using Cons.prems(3,4) by (simp add: popline_def)
  from Cons.prems(1) have h: "l \<noteq> [] \<and> hd l = space"
    "\<not> startswith l ''    data: !!ascii85 |''" "bos_line_scans ex l"
    and rest: "\<forall>l \<in> set ls. l \<noteq> [] \<and> hd l = space
             \<and> \<not> startswith l ''    data: !!ascii85 |'' \<and> bos_line_scans ex l"
    by simp_all
  have s: "decode_bos_loop ex sz iova st =
     decode_bos_loop ex (size_after ex sz [l]) (iova_after ex iova [l]) ?st2"
    using pl h by (rule decode_bos_loop_header_step)
  have p2: "pushedline ?st2 = None" "infile ?st2 = ls @ dline # rest"
    using Cons.prems(3) by (simp_all add: emit_def)
  have e: "?st2\<lparr>infile := rest, lastline := Some dline,
                  effects := effects ?st2 @ map Printf ls\<rparr>
      = st\<lparr>infile := rest, lastline := Some dline,
                  effects := effects st @ map Printf (l # ls)\<rparr>"
    by (simp add: emit_def)
  note ih = Cons.IH [OF rest Cons.prems(2) p2,
      of "size_after ex sz [l]" "iova_after ex iova [l]"]
  show ?case
    unfolding s ih e size_after_Cons [of ex sz l ls, symmetric]
      iova_after_Cons [of ex iova l ls, symmetric] ..
qed

text \<open>
  C5, on the code. A \<open>bos\<close> section of two entries, the second without a
  \<open>size:\<close> line: \<open>decode_bos\<close> returns normally, having decoded the second payload with
  the size 4 of the first entry and registered it with \<open>add_buffer(0x2000, 4, buf)\<close>.
\<close>

theorem bos_stale_size_decoded:
  "map_sum id (\<lambda>st'. (effects st', pushedline st', infile st'))
     (decode_bos
        \<lparr>regbase = (\<lambda>_. 0), pkt_is_type4 = (\<lambda>_. False), pkt_is_type7 = (\<lambda>_. False),
         vsscanf = (\<lambda>line fmt.
           if fmt = ''  - iova: %lx'' \<and> line = ''  - iova: 1000'' @ [newline] then Scanned [0x1000]
           else if fmt = ''  - iova: %lx'' \<and> line = ''  - iova: 2000'' @ [newline] then Scanned [0x2000]
           else if fmt = ''    size: %u'' \<and> line = ''    size: 4'' @ [newline] then Scanned [4]
           else ScanEOF)\<rparr>
        \<lparr>infile =
           [''  - iova: 1000'' @ [newline],
            ''    size: 4'' @ [newline],
            ''    data: !!ascii85 |'' @ [newline],
            ''      !!!!#'' @ [newline],
            ''  - iova: 2000'' @ [newline],
            ''    data: !!ascii85 |'' @ [newline],
            ''      z'' @ [newline],
            ''registers:'' @ [newline]],
         lastline = Some (''bos:'' @ [newline]), pushedline = None, verbose = False,
         options = \<lparr>gpu_id = 630, ibs = (\<lambda>_. \<lparr>ib_base = 0, ib_rem = 0\<rparr>)\<rparr>,
         ringbuffers = [], regs = (\<lambda>_. 0), effects = []\<rparr>)
   = Inr ([Printf (''  - iova: 1000'' @ [newline]),
           Printf (''    size: 4'' @ [newline]),
           AddBuffer 0x1000 4 [2],
           Printf (''  - iova: 2000'' @ [newline]),
           AddBuffer 0x2000 4 [0]],
          Some (''registers:'' @ [newline]), [])"
  by code_simp

text \<open>
  C5, what holds. \<open>decode_bos\<close> enters its loop with \<open>size = 0\<close> and \<open>iova = 0\<close>, and
  the two locals live across the entries of the section. When the loop, with \<open>size = sz\<close>,
  reads the indented lines \<open>ls\<close> (none a \<open>data:\<close> line, their \<open>iova:\<close> and \<open>size:\<close>
  lines scanning) and then a \<open>data:\<close> line, no parse error is raised: the payload is
  decoded with \<open>popline_ascii85(size / 4)\<close> for the value of \<open>size\<close> at that point,
  and when that call returns the buffer is registered with \<open>add_buffer\<close> under this
  \<open>size\<close> and the loop goes on with it. That value is \<open>sz\<close>, the one the loop came
  with, when \<open>ls\<close> has no \<open>size:\<close> line (an entry without \<open>size:\<close> is decoded with
  what an earlier entry left, or 0), and the value scanned from the last \<open>size:\<close> line of
  \<open>ls\<close> otherwise. \<open>decode_bos\<close> ends with a parse error only if an \<open>iova:\<close> or
  \<open>size:\<close> line of the input fails to scan.
\<close>

theorem bos_data_without_size:
  assumes hdr: "\<forall>l \<in> set ls. l \<noteq> [] \<and> hd l = space
             \<and> \<not> startswith l ''    data: !!ascii85 |'' \<and> bos_line_scans ex l"
    and dat: "startswith dline ''    data: !!ascii85 |''"
    and inp: "pushedline st = None" "infile st = ls @ dline # rest"
  shows "decode_bos_loop ex sz iova st =
      (case popline_ascii85 (size_after ex sz ls div 4)
              (st\<lparr>infile := rest, lastline := Some dline,
                  effects := effects st @ map Printf ls\<rparr>) of
         Inl e \<Rightarrow> Inl e
       | Inr (buf, st2) \<Rightarrow>
           decode_bos_loop ex (size_after ex sz ls) (iova_after ex iova ls)
             (emit (AddBuffer (iova_after ex iova ls) (size_after ex sz ls) buf)
                (if verbose st2 then emit (DumpHexAscii buf (size_after ex sz ls)) st2
                 else st2)))
    \<and> decode_bos ex st = decode_bos_loop ex 0 0 st
    \<and> ((\<forall>l \<in> set ls. \<not> startswith l ''    size:'') \<longrightarrow> size_after ex sz ls = sz)
    \<and> (\<forall>ls1 sl v ls2.
          ls = ls1 @ sl # ls2 \<and> startswith sl ''    size:''
          \<and> vsscanf ex sl ''    size: %u'' = Scanned [v]
          \<and> (\<forall>l \<in> set ls2. \<not> startswith l ''    size:'')
          \<longrightarrow> size_after ex sz ls = ucast v)
    \<and> ((\<forall>l \<in> set (pending_lines st). bos_line_scans ex l) \<longrightarrow>
          decode_bos ex st \<noteq> Inl (ParseError fmt))"
proof (intro conjI allI impI)
  show "decode_bos_loop ex sz iova st =
      (case popline_ascii85 (size_after ex sz ls div 4)
              (st\<lparr>infile := rest, lastline := Some dline,
                  effects := effects st @ map Printf ls\<rparr>) of
         Inl e \<Rightarrow> Inl e
       | Inr (buf, st2) \<Rightarrow>
           decode_bos_loop ex (size_after ex sz ls) (iova_after ex iova ls)
             (emit (AddBuffer (iova_after ex iova ls) (size_after ex sz ls) buf)
                (if verbose st2 then emit (DumpHexAscii buf (size_after ex sz ls)) st2
                 else st2)))"
    using hdr dat inp by (rule decode_bos_loop_headers)
next
  show "decode_bos ex st = decode_bos_loop ex 0 0 st"
    by (simp add: decode_bos_def)
next
  assume "\<forall>l \<in> set ls. \<not> startswith l ''    size:''"
  then show "size_after ex sz ls = sz"
    by (rule size_after_no_size)
next
  fix ls1 sl v ls2
  assume a: "ls = ls1 @ sl # ls2 \<and> startswith sl ''    size:''
          \<and> vsscanf ex sl ''    size: %u'' = Scanned [v]
          \<and> (\<forall>l \<in> set ls2. \<not> startswith l ''    size:'')"
  then have "size_after ex sz (ls1 @ sl # ls2) = ucast v"
    by (intro size_after_last_size) blast+
  with a show "size_after ex sz ls = ucast v" by simp
next
  assume "\<forall>l \<in> set (pending_lines st). bos_line_scans ex l"
  then show "decode_bos ex st \<noteq> Inl (ParseError fmt)"
    unfolding decode_bos_def by (rule decode_bos_loop_no_parse_error)
qed

theorem bos_data_without_size_witness:
  "size_after
       \<lparr>regbase = (\<lambda>_. 0), pkt_is_type4 = (\<lambda>_. False), pkt_is_type7 = (\<lambda>_. False),
        vsscanf = (\<lambda>line fmt.
          if fmt = ''  - iova: %lx'' \<and> line = ''  - iova: 2000'' @ [newline]
          then Scanned [0x2000] else ScanEOF)\<rparr>
       4 [''  - iova: 2000'' @ [newline]] = 4
   \<and> iova_after
       \<lparr>regbase = (\<lambda>_. 0), pkt_is_type4 = (\<lambda>_. False), pkt_is_type7 = (\<lambda>_. False),
        vsscanf = (\<lambda>line fmt.
          if fmt = ''  - iova: %lx'' \<and> line = ''  - iova: 2000'' @ [newline]
          then Scanned [0x2000] else ScanEOF)\<rparr>
       0x1000 [''  - iova: 2000'' @ [newline]] = 0x2000
   \<and> decode_bos_loop
       \<lparr>regbase = (\<lambda>_. 0), pkt_is_type4 = (\<lambda>_. False), pkt_is_type7 = (\<lambda>_. False),
        vsscanf = (\<lambda>line fmt.
          if fmt = ''  - iova: %lx'' \<and> line = ''  - iova: 2000'' @ [newline]
          then Scanned [0x2000] else ScanEOF)\<rparr>
       4 0x1000
      \<lparr>infile = [''  - iova: 2000'' @ [newline], ''    data: !!ascii85 |'' @ [newline],
                 ''      z'' @ [newline], ''registers:'' @ [newline]],
       lastline = None, pushedline = None, verbose = False,
       options = \<lparr>gpu_id = 630, ibs = (\<lambda>_. \<lparr>ib_base = 0, ib_rem = 0\<rparr>)\<rparr>,
       ringbuffers = [], regs = (\<lambda>_. 0), effects = []\<rparr>
     = decode_bos_loop
       \<lparr>regbase = (\<lambda>_. 0), pkt_is_type4 = (\<lambda>_. False), pkt_is_type7 = (\<lambda>_. False),
        vsscanf = (\<lambda>line fmt.
          if fmt = ''  - iova: %lx'' \<and> line = ''  - iova: 2000'' @ [newline]
          then Scanned [0x2000] else ScanEOF)\<rparr>
       4 0x2000
      \<lparr>infile = [''registers:'' @ [newline]],
       lastline = Some (''      z'' @ [newline]), pushedline = None, verbose = False,
       options = \<lparr>gpu_id = 630, ibs = (\<lambda>_. \<lparr>ib_base = 0, ib_rem = 0\<rparr>)\<rparr>,
       ringbuffers = [], regs = (\<lambda>_. 0),
       effects = [Printf (''  - iova: 2000'' @ [newline]), AddBuffer 0x2000 4 [0]]\<rparr>
   \<and> decode_bos
       \<lparr>regbase = (\<lambda>_. 0), pkt_is_type4 = (\<lambda>_. False), pkt_is_type7 = (\<lambda>_. False),
        vsscanf = (\<lambda>line fmt.
          if fmt = ''  - iova: %lx'' \<and> line = ''  - iova: 2000'' @ [newline]
          then Scanned [0x2000] else ScanEOF)\<rparr>
      \<lparr>infile = [''  - iova: 2000'' @ [newline], ''    data: !!ascii85 |'' @ [newline],
                 ''      z'' @ [newline], ''registers:'' @ [newline]],
       lastline = None, pushedline = None, verbose = False,
       options = \<lparr>gpu_id = 630, ibs = (\<lambda>_. \<lparr>ib_base = 0, ib_rem = 0\<rparr>)\<rparr>,
       ringbuffers = [], regs = (\<lambda>_. 0), effects = []\<rparr>
     \<noteq> Inl (ParseError ''    size: %u'')"
proof -
  let ?ex = "\<lparr>regbase = (\<lambda>_. 0), pkt_is_type4 = (\<lambda>_. False), pkt_is_type7 = (\<lambda>_. False),
        vsscanf = (\<lambda>line fmt.
          if fmt = ''  - iova: %lx'' \<and> line = ''  - iova: 2000'' @ [newline]
          then Scanned [0x2000] else ScanEOF)\<rparr>"
  let ?iline = "''  - iova: 2000'' @ [newline]"
  let ?dline = "''    data: !!ascii85 |'' @ [newline]"
  let ?rest = "[''      z'' @ [newline], ''registers:'' @ [newline]]"
  let ?st = "\<lparr>infile = [?iline, ?dline, ''      z'' @ [newline], ''registers:'' @ [newline]],
       lastline = None, pushedline = None, verbose = False,
       options = \<lparr>gpu_id = 630, ibs = (\<lambda>_. \<lparr>ib_base = 0, ib_rem = 0\<rparr>)\<rparr>,
       ringbuffers = [], regs = (\<lambda>_. 0), effects = []\<rparr>"
  let ?st1 = "\<lparr>infile = ?rest,
       lastline = Some ?dline, pushedline = None, verbose = False,
       options = \<lparr>gpu_id = 630, ibs = (\<lambda>_. \<lparr>ib_base = 0, ib_rem = 0\<rparr>)\<rparr>,
       ringbuffers = [], regs = (\<lambda>_. 0), effects = [Printf ?iline]\<rparr>"
  let ?st2 = "\<lparr>infile = [''registers:'' @ [newline]],
       lastline = Some (''      z'' @ [newline]), pushedline = None, verbose = False,
       options = \<lparr>gpu_id = 630, ibs = (\<lambda>_. \<lparr>ib_base = 0, ib_rem = 0\<rparr>)\<rparr>,
       ringbuffers = [], regs = (\<lambda>_. 0), effects = [Printf ?iline]\<rparr>"
  have h1: "\<forall>l \<in> set [?iline]. l \<noteq> [] \<and> hd l = space
             \<and> \<not> startswith l ''    data: !!ascii85 |'' \<and> bos_line_scans ?ex l"
    by (simp add: startswith_def bos_line_scans_def scan_count_def)
  have h2: "startswith ?dline ''    data: !!ascii85 |''"
    by (simp add: startswith_def)
  have h3: "pushedline ?st = None" "infile ?st = [?iline] @ ?dline # ?rest"
    by simp_all
  have h4: "\<forall>l \<in> set [?iline]. \<not> startswith l ''    size:''"
    by (simp add: startswith_def)
  have h5: "\<forall>l \<in> set (pending_lines ?st). bos_line_scans ?ex l"
    by (simp add: pending_lines_def startswith_def bos_line_scans_def scan_count_def)
  have s1: "?st\<lparr>infile := ?rest, lastline := Some ?dline,
                effects := effects ?st @ map Printf [?iline]\<rparr> = ?st1"
    by simp
  have i: "iova_after ?ex 0x1000 [?iline] = 0x2000"
    by (simp add: startswith_def)
  have p: "popline_ascii85 (4 div 4) ?st1 = Inr ([0], ?st2)"
    by (simp add: popline_ascii85_def popline_def andthen_def)
  have e: "emit (AddBuffer 0x2000 4 [0])
             (if verbose ?st2 then emit (DumpHexAscii [0] 4) ?st2 else ?st2)
      = ?st2\<lparr>effects := [Printf ?iline, AddBuffer 0x2000 4 [0]]\<rparr>"
    by (simp add: emit_def)
  note t = bos_data_without_size [OF h1 h2 h3, of 4 "0x1000" "''    size: %u''"]
  from t h4 have sz: "size_after ?ex 4 [?iline] = 4"
    by blast
  from t have "decode_bos_loop ?ex 4 0x1000 ?st =
      (case popline_ascii85 (size_after ?ex 4 [?iline] div 4)
              (?st\<lparr>infile := ?rest, lastline := Some ?dline,
                  effects := effects ?st @ map Printf [?iline]\<rparr>) of
         Inl e \<Rightarrow> Inl e
       | Inr (buf, st2) \<Rightarrow>
           decode_bos_loop ?ex (size_after ?ex 4 [?iline]) (iova_after ?ex 0x1000 [?iline])
             (emit (AddBuffer (iova_after ?ex 0x1000 [?iline]) (size_after ?ex 4 [?iline]) buf)
                (if verbose st2 then emit (DumpHexAscii buf (size_after ?ex 4 [?iline])) st2
                 else st2)))"
    by (rule conjunct1)
  then have l: "decode_bos_loop ?ex 4 0x1000 ?st
      = decode_bos_loop ?ex 4 0x2000 (?st2\<lparr>effects := [Printf ?iline, AddBuffer 0x2000 4 [0]]\<rparr>)"
    unfolding sz i s1 p using e by simp
  from t h5 have n: "decode_bos ?ex ?st \<noteq> Inl (ParseError ''    size: %u'')"
    by blast
  from sz i l n show ?thesis by simp
qed

subsection \<open>Backward header search\<close>

lemma uint_mod_add:
  assumes "uint b + uint v < 3221225472" and "uint sz < 1073741824"
  shows "uint (mod_add sz b v) = (uint b + uint v) mod uint sz"
proof -
  have "uint (sz + b + v) = (uint sz + uint b + uint v) mod 4294967296"
    by (simp add: uint_word_ariths mod_simps)
  also have "\<dots> = uint sz + uint b + uint v"
    using assms uint_ge_0 [of sz] uint_ge_0 [of b] uint_ge_0 [of v]
    by (intro mod_pos_pos_trivial; linarith)
  finally have "uint (mod_add sz b v) = (uint sz + uint b + uint v) mod uint sz"
    unfolding mod_add_def uint_mod_distrib by simp
  also have "\<dots> = (uint b + uint v) mod uint sz"
    by (simp add: add.assoc)
  finally show ?thesis .
qed

lemma mod_add_less:
  assumes "sz \<noteq> 0"
  shows "mod_add sz b v < sz"
proof -
  have "uint sz \<noteq> 0"
    using assms by (simp add: uint_0_iff)
  then have "0 < uint sz"
    using uint_ge_0 [of sz] by linarith
  then have "uint (mod_add sz b v) < uint sz"
    unfolding mod_add_def uint_mod_distrib by (rule pos_mod_bound)
  then show ?thesis by (simp add: word_less_def)
qed

lemma uint_mod_add_1:
  assumes "p < sz" and "uint sz < 1073741824"
  shows "uint (mod_add sz p 1) = (uint p + 1) mod uint sz"
proof -
  have "uint p < uint sz" using assms(1) by (simp add: word_less_def)
  then have "uint p + uint (1 :: u32) < 3221225472" using assms(2) by simp
  from uint_mod_add [OF this assms(2)] show ?thesis by simp
qed

lemma uint_mod_add_lookback:
  assumes "12 \<le> uint sz + uint rptr" and "uint sz + uint rptr < 4294967296"
  shows "uint (mod_add sz rptr (- 12)) = (uint rptr - 12) mod uint sz"
proof -
  have "uint (sz + rptr + (- 12)) = (uint sz + uint rptr - 12) mod 4294967296"
    by (simp add: uint_word_ariths mod_simps)
  also have "\<dots> = uint sz + uint rptr - 12"
    using assms by (intro mod_pos_pos_trivial; linarith)
  finally have "uint (mod_add sz rptr (- 12)) = (uint sz + uint rptr - 12) mod uint sz"
    unfolding mod_add_def uint_mod_distrib by simp
  also have "\<dots> = (uint rptr - 12) mod uint sz"
    by (metis add.commute add_diff_eq mod_add_self2)
  finally show ?thesis .
qed

lemma ring_word_in:
  assumes "p < sz" and "unat sz \<le> length buf"
  shows "ring_word buf p = Inr (buf ! unat p)"
proof -
  have "unat p < unat sz" using assms(1) by (simp add: word_less_nat_alt)
  then show ?thesis using assms(2) by (simp add: ring_word_def)
qed

lemma header_search_general:
  assumes sz0: "sz \<noteq> 0" and szb: "uint sz < 1073741824" and cover: "unat sz \<le> length buf"
  shows "p < sz \<Longrightarrow>
    \<exists>probed r. header_search valid buf sz n p = Inr (probed, r)
      \<and> length probed \<le> n
      \<and> (0 < n \<longrightarrow> probed \<noteq> [] \<and> hd probed = p)
      \<and> (\<forall>i < length probed.
            probed ! i < sz \<and> uint (probed ! i) = (uint p + int i) mod uint sz)
      \<and> ((\<forall>q \<in> set probed. \<not> valid (buf ! unat q)) \<longrightarrow>
            length probed = n \<and> r < sz \<and> uint r = (uint p + int n) mod uint sz)
      \<and> ((\<exists>q \<in> set probed. valid (buf ! unat q)) \<longrightarrow>
            r = last probed \<and> valid (buf ! unat r)
            \<and> (\<forall>q \<in> set (butlast probed). \<not> valid (buf ! unat q)))"
proof (induction n arbitrary: p)
  case 0
  have "uint p < uint sz" using "0.prems" by (simp add: word_less_def)
  then have "uint p mod uint sz = uint p"
    using uint_ge_0 [of p] by (intro mod_pos_pos_trivial; linarith)
  then show ?case using "0.prems" by simp
next
  case (Suc n)
  have rw: "ring_word buf p = Inr (buf ! unat p)"
    using Suc.prems cover by (rule ring_word_in)
  have pu: "uint p < uint sz" using Suc.prems by (simp add: word_less_def)
  have pm: "uint p mod uint sz = uint p"
    using pu uint_ge_0 [of p] by (intro mod_pos_pos_trivial; linarith)
  show ?case
  proof (cases "valid (buf ! unat p)")
    case True
    then have "header_search valid buf sz (Suc n) p = Inr ([p], p)"
      using rw by (simp add: andthen_def)
    then show ?thesis using True Suc.prems pm by simp
  next
    case False
    let ?p' = "mod_add sz p 1"
    have p': "?p' < sz" using sz0 by (rule mod_add_less)
    have up': "uint ?p' = (uint p + 1) mod uint sz"
      using Suc.prems szb by (rule uint_mod_add_1)
    from Suc.IH [OF p'] obtain probed r where
      hs: "header_search valid buf sz n ?p' = Inr (probed, r)"
      and len: "length probed \<le> n"
      and pos: "\<forall>i < length probed.
            probed ! i < sz \<and> uint (probed ! i) = (uint ?p' + int i) mod uint sz"
      and nom: "(\<forall>q \<in> set probed. \<not> valid (buf ! unat q)) \<longrightarrow>
            length probed = n \<and> r < sz \<and> uint r = (uint ?p' + int n) mod uint sz"
      and mat: "(\<exists>q \<in> set probed. valid (buf ! unat q)) \<longrightarrow>
            r = last probed \<and> valid (buf ! unat r)
            \<and> (\<forall>q \<in> set (butlast probed). \<not> valid (buf ! unat q))"
      by blast
    have res: "header_search valid buf sz (Suc n) p = Inr (p # probed, r)"
      using rw False hs by (simp add: andthen_def)
    have shift: "(uint ?p' + k) mod uint sz = (uint p + (1 + k)) mod uint sz" for k
      unfolding up' by (simp add: mod_simps add.assoc)
    have a: "length (p # probed) \<le> Suc n" using len by simp
    have b: "0 < Suc n \<longrightarrow> p # probed \<noteq> [] \<and> hd (p # probed) = p" by simp
    have c: "\<forall>i < length (p # probed).
        (p # probed) ! i < sz \<and> uint ((p # probed) ! i) = (uint p + int i) mod uint sz"
    proof (intro allI impI)
      fix i assume i: "i < length (p # probed)"
      show "(p # probed) ! i < sz \<and> uint ((p # probed) ! i) = (uint p + int i) mod uint sz"
      proof (cases i)
        case 0
        then show ?thesis using Suc.prems pm by simp
      next
        case (Suc j)
        then have "j < length probed" using i by simp
        with pos have "probed ! j < sz" and "uint (probed ! j) = (uint ?p' + int j) mod uint sz"
          by simp_all
        then show ?thesis using Suc shift [of "int j"] by simp
      qed
    qed
    have d: "(\<forall>q \<in> set (p # probed). \<not> valid (buf ! unat q)) \<longrightarrow>
        length (p # probed) = Suc n \<and> r < sz \<and> uint r = (uint p + int (Suc n)) mod uint sz"
      using nom shift [of "int n"] by simp
    have e: "(\<exists>q \<in> set (p # probed). valid (buf ! unat q)) \<longrightarrow>
        r = last (p # probed) \<and> valid (buf ! unat r)
        \<and> (\<forall>q \<in> set (butlast (p # probed)). \<not> valid (buf ! unat q))"
    proof
      assume "\<exists>q \<in> set (p # probed). valid (buf ! unat q)"
      with False have ex: "\<exists>q \<in> set probed. valid (buf ! unat q)" by auto
      then have ne: "probed \<noteq> []" by auto
      from ex mat have "r = last probed" "valid (buf ! unat r)"
        "\<forall>q \<in> set (butlast probed). \<not> valid (buf ! unat q)"
        by blast+
      then show "r = last (p # probed) \<and> valid (buf ! unat r)
        \<and> (\<forall>q \<in> set (butlast (p # probed)). \<not> valid (buf ! unat q))"
        using ne False by simp
    qed
    from res a b c d e show ?thesis by blast
  qed
qed

lemma small_ring_window:
  fixes s p r :: int
  assumes "0 < s" and "s \<le> 12" and "0 \<le> p" and "p < s"
  shows "\<exists>k \<in> {1..12}. p = (r - k) mod s"
proof (cases "(r - p) mod s = 0")
  case True
  have "(r - s) mod s = r mod s" by simp
  moreover have "s dvd r - p"
    using True by (simp add: mod_eq_0_iff_dvd)
  then have "r mod s = p mod s"
    by (simp add: mod_eq_dvd_iff)
  moreover have "p mod s = p" using assms by (intro mod_pos_pos_trivial)
  ultimately have "p = (r - s) mod s" by simp
  moreover have "s \<in> {1..12}" using assms by simp
  ultimately show ?thesis by blast
next
  case False
  let ?k = "(r - p) mod s"
  have "0 \<le> ?k" using assms(1) by simp
  with False have k1: "1 \<le> ?k" by linarith
  have "?k < s" using assms(1) by simp
  with assms(2) have k2: "?k \<le> 12" by linarith
  have "(r - ?k) mod s = (r - (r - p)) mod s"
    by (simp add: mod_simps)
  also have "\<dots> = p mod s" by simp
  also have "\<dots> = p" using assms by (intro mod_pos_pos_trivial)
  finally have "p = (r - ?k) mod s" by simp
  with k1 k2 show ?thesis by auto
qed

text \<open>
  C4, on the code. A ring of 16 zero words (\<open>size = 64\<close>), \<open>rptr = 14\<close>,
  \<open>gpu_id = 630\<close>, and header tests that look at the type tag of a word (no zero word is
  a header): the search loads the positions 2 to 13 and is left with \<open>rptr = 14\<close>, the
  recorded read pointer, which is one past the last position tried.
\<close>

theorem header_search_no_match_fallback:
  "header_search
     (valid_header
        \<lparr>regbase = (\<lambda>_. 0),
         pkt_is_type4 = (\<lambda>pkt. pkt AND 0xf0000000 = 0x40000000),
         pkt_is_type7 = (\<lambda>pkt. pkt AND 0xf0000000 = 0x70000000),
         vsscanf = (\<lambda>_ _. ScanEOF)\<rparr>
        \<lparr>gpu_id = 630, ibs = (\<lambda>_. \<lparr>ib_base = 0, ib_rem = 0\<rparr>)\<rparr>)
     (replicate 16 0) (drop_bit 2 64) 12 (mod_add (drop_bit 2 64) 14 (- 12))
   = Inr ([2, 3, 4, 5, 6, 7, 8, 9, 10, 11, 12, 13], 14)"
  by code_simp

text \<open>
  The bound \<open>ringszdw + rptr < 2^32\<close>: with \<open>size = 52\<close> (13 words) and the recorded
  read pointer \<open>0xffffffff\<close> the 32-bit sum of \<open>mod_add\<close> wraps; the search loads the
  positions 0 to 11, and position 8 is none of \<open>(rptr - k) mod 13\<close> for \<open>1 \<le> k \<le> 12\<close>.
\<close>

lemma header_search_wrapped_rptr_example:
  "header_search
     (valid_header
        \<lparr>regbase = (\<lambda>_. 0),
         pkt_is_type4 = (\<lambda>pkt. pkt AND 0xf0000000 = 0x40000000),
         pkt_is_type7 = (\<lambda>pkt. pkt AND 0xf0000000 = 0x70000000),
         vsscanf = (\<lambda>_ _. ScanEOF)\<rparr>
        \<lparr>gpu_id = 630, ibs = (\<lambda>_. \<lparr>ib_base = 0, ib_rem = 0\<rparr>)\<rparr>)
     (replicate 13 0) (drop_bit 2 52) 12 (mod_add (drop_bit 2 52) 0xffffffff (- 12))
   = Inr ([0, 1, 2, 3, 4, 5, 6, 7, 8, 9, 10, 11], 12)
   \<and> map (\<lambda>k. (uint (0xffffffff :: u32) - k) mod uint (drop_bit 2 52 :: u32)) [1, 2, 3, 4, 5, 6, 7, 8, 9, 10, 11, 12]
     = [7, 6, 5, 4, 3, 2, 1, 0, 12, 11, 10, 9]"
  by code_simp

text \<open>
  C4, what holds. For a ring of \<open>ringszdw = size >> 2\<close> words (not zero) whose buffer
  holds them, and a recorded read pointer \<open>rptr\<close> with \<open>ringszdw + rptr < 2^32\<close> (every
  \<open>rptr\<close> inside the ring is one), the backward search of \<open>dump_cmdstream\<close> returns: it
  loads between 1 and 12 words, each at a position \<open>(rptr - k) mod ringszdw\<close> with
  \<open>1 \<le> k \<le> 12\<close>. When none of the loaded words satisfies \<open>valid_header\<close>, it has
  loaded 12 words and ends one position past the last one loaded, which is
  \<open>rptr mod ringszdw\<close> (the recorded read pointer) when \<open>12 \<le> ringszdw + rptr\<close>, not
  at the last position tried. When a loaded word satisfies \<open>valid_header\<close>, the search
  ends at the first such position. With \<open>gpu_id < 500\<close> every word is accepted, so the
  search loads the first position only and ends there.
\<close>

theorem header_search_lookback:
  assumes sz: "ringszdw = drop_bit 2 bsize" and sz0: "ringszdw \<noteq> 0"
    and cover: "unat ringszdw \<le> length buf"
    and nov: "uint ringszdw + uint rptr < 4294967296"
  shows "\<exists>probed r.
      header_search (valid_header ex opts) buf ringszdw 12 (mod_add ringszdw rptr (- 12))
        = Inr (probed, r)
    \<and> probed \<noteq> [] \<and> length probed \<le> 12
    \<and> (\<forall>p \<in> set probed.
          p < ringszdw \<and> (\<exists>k \<in> {1..12}. uint p = (uint rptr - k) mod uint ringszdw))
    \<and> ((\<forall>p \<in> set probed. \<not> valid_header ex opts (buf ! unat p)) \<longrightarrow>
          length probed = 12 \<and> r = mod_add ringszdw (last probed) 1
          \<and> (12 \<le> uint ringszdw + uint rptr \<longrightarrow> uint r = uint rptr mod uint ringszdw))
    \<and> ((\<exists>p \<in> set probed. valid_header ex opts (buf ! unat p)) \<longrightarrow>
          r = last probed \<and> valid_header ex opts (buf ! unat r)
          \<and> (\<forall>p \<in> set (butlast probed). \<not> valid_header ex opts (buf ! unat p)))
    \<and> (gpu_id opts < 500 \<longrightarrow>
          probed = [mod_add ringszdw rptr (- 12)] \<and> r = mod_add ringszdw rptr (- 12))"
proof -
  let ?valid = "valid_header ex opts"
  let ?start = "mod_add ringszdw rptr (- 12)"
  let ?s = "uint ringszdw"
  have szb: "?s < 1073741824" using sz ringszdw_bound by simp
  have spos: "0 < ?s"
    using sz0 uint_ge_0 [of ringszdw] by (simp add: uint_0_iff order_less_le)
  have st: "?start < ringszdw" using sz0 by (rule mod_add_less)
  from header_search_general [OF sz0 szb cover st, of ?valid 12]
  obtain probed r where
    hs: "header_search ?valid buf ringszdw 12 ?start = Inr (probed, r)"
    and len: "length probed \<le> 12"
    and ne: "probed \<noteq> []" and hd: "hd probed = ?start"
    and pos: "\<forall>i < length probed.
        probed ! i < ringszdw \<and> uint (probed ! i) = (uint ?start + int i) mod ?s"
    and nom: "(\<forall>q \<in> set probed. \<not> ?valid (buf ! unat q)) \<longrightarrow>
        length probed = 12 \<and> r < ringszdw \<and> uint r = (uint ?start + int 12) mod ?s"
    and mat: "(\<exists>q \<in> set probed. ?valid (buf ! unat q)) \<longrightarrow>
        r = last probed \<and> ?valid (buf ! unat r)
        \<and> (\<forall>q \<in> set (butlast probed). \<not> ?valid (buf ! unat q))"
    by auto
  have window: "\<forall>p \<in> set probed.
      p < ringszdw \<and> (\<exists>k \<in> {1..12}. uint p = (uint rptr - k) mod ?s)"
  proof
    fix p assume "p \<in> set probed"
    then obtain i where i: "i < length probed" and p: "p = probed ! i"
      by (auto simp: in_set_conv_nth)
    from pos i p have pl: "p < ringszdw" and pu: "uint p = (uint ?start + int i) mod ?s"
      by simp_all
    have "\<exists>k \<in> {1..12}. uint p = (uint rptr - k) mod ?s"
    proof (cases "12 \<le> ?s + uint rptr")
      case True
      then have "uint ?start = (uint rptr - 12) mod ?s"
        using nov by (rule uint_mod_add_lookback)
      then have "uint p = (uint rptr - (12 - int i)) mod ?s"
        unfolding pu by (simp add: mod_simps algebra_simps)
      moreover have "12 - int i \<in> {1..12}" using i len by auto
      ultimately show ?thesis by blast
    next
      case False
      then have "?s \<le> 12" using uint_ge_0 [of rptr] by linarith
      moreover have "uint p < ?s" using pl by (simp add: word_less_def)
      ultimately show ?thesis
        using spos uint_ge_0 [of p] by (intro small_ring_window)
    qed
    with pl show "p < ringszdw \<and> (\<exists>k \<in> {1..12}. uint p = (uint rptr - k) mod ?s)" ..
  qed
  have nomatch: "(\<forall>p \<in> set probed. \<not> ?valid (buf ! unat p)) \<longrightarrow>
      length probed = 12 \<and> r = mod_add ringszdw (last probed) 1
      \<and> (12 \<le> ?s + uint rptr \<longrightarrow> uint r = uint rptr mod ?s)"
  proof
    assume "\<forall>p \<in> set probed. \<not> ?valid (buf ! unat p)"
    with nom have l12: "length probed = 12" and ru: "uint r = (uint ?start + 12) mod ?s"
      by simp_all
    have "last probed = probed ! 11"
      using ne l12 by (simp add: last_conv_nth)
    with pos l12 have ll: "last probed < ringszdw"
      and lu: "uint (last probed) = (uint ?start + 11) mod ?s"
      by simp_all
    have "uint (mod_add ringszdw (last probed) 1) = (uint (last probed) + 1) mod ?s"
      using ll szb by (rule uint_mod_add_1)
    also have "\<dots> = (uint ?start + 12) mod ?s"
      unfolding lu by (simp add: mod_simps add.commute)
    finally have "uint r = uint (mod_add ringszdw (last probed) 1)"
      using ru by simp
    then have req: "r = mod_add ringszdw (last probed) 1"
      by (rule word_uint_eqI)
    have "12 \<le> ?s + uint rptr \<longrightarrow> uint r = uint rptr mod ?s"
    proof
      assume "12 \<le> ?s + uint rptr"
      then have "uint ?start = (uint rptr - 12) mod ?s"
        using nov by (rule uint_mod_add_lookback)
      then show "uint r = uint rptr mod ?s"
        unfolding ru by (simp add: mod_simps)
    qed
    with l12 req show "length probed = 12 \<and> r = mod_add ringszdw (last probed) 1
      \<and> (12 \<le> ?s + uint rptr \<longrightarrow> uint r = uint rptr mod ?s)"
      by simp
  qed
  have old: "gpu_id opts < 500 \<longrightarrow> probed = [?start] \<and> r = ?start"
  proof
    assume "gpu_id opts < 500"
    then have v: "?valid w" for w by (simp add: valid_header_def not_le [symmetric])
    with ne have "\<exists>q \<in> set probed. ?valid (buf ! unat q)"
      by (cases probed) auto
    with mat have rl: "r = last probed"
      and bl: "\<forall>q \<in> set (butlast probed). \<not> ?valid (buf ! unat q)"
      by simp_all
    from bl v have "butlast probed = []" by (cases "butlast probed") auto
    with ne hd have "probed = [?start]"
      by (cases probed) (auto split: if_splits)
    with rl show "probed = [?start] \<and> r = ?start" by simp
  qed
  from hs ne len window nomatch mat old show ?thesis by blast
qed

theorem header_search_lookback_witness:
  "(16 :: u32) = drop_bit 2 64 \<and> (16 :: u32) \<noteq> 0
   \<and> unat (16 :: u32) \<le> length [0, 1, 2, 3, 4, 0x70268000, 6, 7, 8, 9, 10, 11, 12, 13, 14, 15 :: u32]
   \<and> uint (16 :: u32) + uint (14 :: u32) < 4294967296
   \<and> header_search
     (valid_header
        \<lparr>regbase = (\<lambda>_. 0),
         pkt_is_type4 = (\<lambda>pkt. pkt AND 0xf0000000 = 0x40000000),
         pkt_is_type7 = (\<lambda>pkt. pkt AND 0xf0000000 = 0x70000000),
         vsscanf = (\<lambda>_ _. ScanEOF)\<rparr>
        \<lparr>gpu_id = 630, ibs = (\<lambda>_. \<lparr>ib_base = 0, ib_rem = 0\<rparr>)\<rparr>)
     [0, 1, 2, 3, 4, 0x70268000, 6, 7, 8, 9, 10, 11, 12, 13, 14, 15] 16 12 (mod_add 16 14 (- 12))
   = Inr ([2, 3, 4, 5], 5)"
proof -
  let ?ex = "\<lparr>regbase = (\<lambda>_. 0),
         pkt_is_type4 = (\<lambda>pkt. pkt AND 0xf0000000 = 0x40000000),
         pkt_is_type7 = (\<lambda>pkt. pkt AND 0xf0000000 = 0x70000000),
         vsscanf = (\<lambda>_ _. ScanEOF)\<rparr>"
  let ?opts = "\<lparr>gpu_id = 630, ibs = (\<lambda>_. \<lparr>ib_base = 0, ib_rem = 0\<rparr>)\<rparr>"
  let ?buf = "[0, 1, 2, 3, 4, 0x70268000, 6, 7, 8, 9, 10, 11, 12, 13, 14, 15 :: u32]"
  have h1: "(16 :: u32) = drop_bit 2 64" by simp
  have h2: "(16 :: u32) \<noteq> 0" by simp
  have h3: "unat (16 :: u32) \<le> length ?buf" by simp
  have h4: "uint (16 :: u32) + uint (14 :: u32) < 4294967296" by simp
  have e: "header_search (valid_header ?ex ?opts) ?buf 16 12 (mod_add 16 14 (- 12))
      = Inr ([2, 3, 4, 5], 5)"
    by code_simp
  have "\<exists>probed r.
      header_search (valid_header ?ex ?opts) ?buf 16 12 (mod_add 16 14 (- 12)) = Inr (probed, r)
      \<and> probed \<noteq> [] \<and> length probed \<le> 12"
    using header_search_lookback [OF h1 h2 h3 h4, of ?ex ?opts]
    by (elim exE conjE, intro exI conjI) assumption+
  then obtain probed r where
    p: "header_search (valid_header ?ex ?opts) ?buf 16 12 (mod_add 16 14 (- 12)) = Inr (probed, r)"
    by (elim exE conjE)
  have "Inr (probed, r) = (Inr ([2, 3, 4, 5], 5) :: fault + (u32 list \<times> u32))"
    using p e by (rule trans [OF sym])
  then have "probed = [2, 3, 4, 5]" and "r = 5" by simp_all
  with p have "header_search (valid_header ?ex ?opts) ?buf 16 12 (mod_add 16 14 (- 12))
      = Inr ([2, 3, 4, 5], 5)"
    by (simp only:)
  with h1 h2 h3 h4 show ?thesis by (intro conjI)
qed

subsection \<open>The run of \<open>dump_cmdstream\<close>\<close>

lemma regval_emit [simp]: "regval ex (emit e st) n = regval ex st n"
  by (simp add: regval_def reg_val_def emit_def Let_def)

lemma regval64_emit [simp]: "regval64 ex (emit e st) n = regval64 ex st n"
  by (simp add: regval64_def reg_val_def emit_def Let_def)

lemma regval_set_ib [simp]:
  "regval ex (set_ib_base k b st) n = regval ex st n"
  "regval ex (set_ib_rem k r st) n = regval ex st n"
  by (simp_all add: regval_def reg_val_def set_ib_base_def set_ib_rem_def Let_def)

lemma regval64_set_ib [simp]:
  "regval64 ex (set_ib_base k b st) n = regval64 ex st n"
  "regval64 ex (set_ib_rem k r st) n = regval64 ex st n"
  by (simp_all add: regval64_def reg_val_def set_ib_base_def set_ib_rem_def is_64b_def Let_def)

lemma is_a6xx_upd [simp]:
  "is_a6xx (options (emit e st)) = is_a6xx (options st)"
  "is_a6xx (options (set_ib_base k b st)) = is_a6xx (options st)"
  "is_a6xx (options (set_ib_rem k r st)) = is_a6xx (options st)"
  by (simp_all add: is_a6xx_def emit_def set_ib_base_def set_ib_rem_def)

lemma read_cp_regs_Inr:
  assumes "read_cp_regs ex st = Inr (rb_base, st1)"
  shows "\<exists>b1 r1 b2 r2.
      regval64 ex st ''CP_RB_BASE'' = Inr rb_base
    \<and> regval64 ex st ''CP_IB1_BASE'' = Inr b1
    \<and> regval ex st ''CP_IB1_REM_SIZE'' = Inr r1
    \<and> regval64 ex st ''CP_IB2_BASE'' = Inr b2
    \<and> regval ex st ''CP_IB2_REM_SIZE'' = Inr r2
    \<and> (if is_a6xx (options st)
        then \<exists>s1 s2. regval ex st ''CP_CSQ_IB1_STAT'' = Inr s1
               \<and> regval ex st ''CP_CSQ_IB2_STAT'' = Inr s2
               \<and> ibs (options st1) 1 = (ibs (options st) 1)\<lparr>ib_base := b1, ib_rem := r1 + drop_bit 16 s1\<rparr>
               \<and> ibs (options st1) 2 = (ibs (options st) 2)\<lparr>ib_base := b2, ib_rem := r2 + drop_bit 16 s2\<rparr>
        else ibs (options st1) 1 = (ibs (options st) 1)\<lparr>ib_base := b1, ib_rem := r1\<rparr>
           \<and> ibs (options st1) 2 = (ibs (options st) 2)\<lparr>ib_base := b2, ib_rem := r2\<rparr>)
    \<and> effects st1 = effects st @
         [GotRbBase rb_base,
          PrintIB 1 (ib_base (ibs (options st1) 1)) (ib_rem (ibs (options st1) 1)),
          PrintIB 2 (ib_base (ibs (options st1) 2)) (ib_rem (ibs (options st1) 2))]
    \<and> regs st1 = regs st \<and> ringbuffers st1 = ringbuffers st
    \<and> gpu_id (options st1) = gpu_id (options st)
    \<and> infile st1 = infile st \<and> lastline st1 = lastline st \<and> pushedline st1 = pushedline st
    \<and> verbose st1 = verbose st"
  using assms
  unfolding read_cp_regs_def andthen_def Let_def
  by (simp split: sum.splits if_splits) (auto simp: set_ib_base_def set_ib_rem_def emit_def)

lemma header_search_result_less:
  "header_search valid buf sz n p = Inr (probed, r) \<Longrightarrow> sz \<noteq> 0 \<Longrightarrow> p < sz \<Longrightarrow> r < sz"
proof (induction n arbitrary: p probed)
  case 0
  then show ?case by simp
next
  case (Suc n)
  show ?case
  proof (cases "ring_word buf p")
    case (Inl e)
    with Suc.prems(1) show ?thesis by (simp add: andthen_def)
  next
    case (Inr pkt)
    show ?thesis
    proof (cases "valid pkt")
      case True
      with Inr Suc.prems show ?thesis by (simp add: andthen_def)
    next
      case False
      with Inr Suc.prems(1) obtain probed' where
        "header_search valid buf sz n (mod_add sz p 1) = Inr (probed', r)"
        by (auto simp: andthen_def split: sum.splits)
      from Suc.IH [OF this Suc.prems(2) mod_add_less [OF Suc.prems(2)]] show ?thesis .
    qed
  qed
qed

lemma copy_words_result:
  "copy_words buf sz rptr n idx = Inr ws \<Longrightarrow>
   length ws = n \<and> (\<forall>i < n. ws ! i = buf ! unat (mod_add sz rptr (idx + of_nat i)))"
proof (induction n arbitrary: idx ws)
  case 0
  then show ?case by simp
next
  case (Suc n)
  from Suc.prems obtain w ws' where
    w: "ring_word buf (mod_add sz rptr idx) = Inr w"
    and r: "copy_words buf sz rptr n (idx + 1) = Inr ws'" and ws: "ws = w # ws'"
    by (auto simp: andthen_def split: sum.splits)
  from w have w': "w = buf ! unat (mod_add sz rptr idx)"
    by (auto simp: ring_word_def split: if_splits)
  from Suc.IH [OF r] have l: "length ws' = n"
    and e: "\<forall>i < n. ws' ! i = buf ! unat (mod_add sz rptr (idx + 1 + of_nat i))"
    by simp_all
  have "\<forall>i < Suc n. ws ! i = buf ! unat (mod_add sz rptr (idx + of_nat i))"
  proof (intro allI impI)
    fix i assume "i < Suc n"
    then show "ws ! i = buf ! unat (mod_add sz rptr (idx + of_nat i))"
      using ws w' e by (cases i) (simp_all add: add.assoc)
  qed
  with l ws show ?case by simp
qed

text \<open>
  What the work on one matching ring amounts to when it returns: the count printed and
  passed to \<open>dump_commands\<close> is \<open>mod_add(wptr, -rptr)\<close> for the read pointer the search
  ended at, and exactly that many words are copied, from that position on, around the
  end of the ring.
\<close>

lemma dump_ring_outcome:
  assumes "dump_ring ex rb st = Inr st'"
  shows "\<exists>probed rptr words.
      drop_bit 2 (rb_size rb) \<noteq> 0
    \<and> header_search (valid_header ex (options st)) (rb_buf rb) (drop_bit 2 (rb_size rb)) 12
          (mod_add (drop_bit 2 (rb_size rb)) (rb_rptr rb) (- 12)) = Inr (probed, rptr)
    \<and> rptr < drop_bit 2 (rb_size rb)
    \<and> length words = unat (mod_add (drop_bit 2 (rb_size rb)) (rb_wptr rb) (- rptr))
    \<and> (\<forall>i < length words.
          words ! i = rb_buf rb ! unat (mod_add (drop_bit 2 (rb_size rb)) rptr (of_nat i)))
    \<and> st' = st\<lparr>effects := effects st @
          [FoundRing,
           GotCmdszdw (mod_add (drop_bit 2 (rb_size rb)) (rb_wptr rb) (- rptr)),
           DumpCommands words (mod_add (drop_bit 2 (rb_size rb)) (rb_wptr rb) (- rptr))]\<rparr>"
proof -
  let ?sz = "drop_bit 2 (rb_size rb)"
  from assms have nz: "?sz \<noteq> 0"
    by (auto simp: dump_ring_def Let_def split: if_splits)
  from assms nz obtain probed rptr words where
    hs: "header_search (valid_header ex (options st)) (rb_buf rb) ?sz 12
          (mod_add ?sz (rb_rptr rb) (- 12)) = Inr (probed, rptr)"
    and cw: "copy_words (rb_buf rb) ?sz rptr (unat (mod_add ?sz (rb_wptr rb) (- rptr))) 0 = Inr words"
    and st': "st' = st\<lparr>effects := effects st @
          [FoundRing, GotCmdszdw (mod_add ?sz (rb_wptr rb) (- rptr)),
           DumpCommands words (mod_add ?sz (rb_wptr rb) (- rptr))]\<rparr>"
    unfolding dump_ring_def andthen_def Let_def emit_def
    by (auto split: sum.splits if_splits prod.splits)
  have rl: "rptr < ?sz"
    using hs nz mod_add_less [OF nz] by (rule header_search_result_less)
  from copy_words_result [OF cw] have
    "length words = unat (mod_add ?sz (rb_wptr rb) (- rptr))"
    "\<forall>i < length words. words ! i = rb_buf rb ! unat (mod_add ?sz rptr (of_nat i))"
    by simp_all
  with nz hs rl st' show ?thesis by blast
qed

lemma dump_ring_Inr:
  assumes "dump_ring ex rb st = Inr st'"
  shows "\<exists>c b. st' = st\<lparr>effects := effects st @ [FoundRing, GotCmdszdw c, DumpCommands b c]\<rparr>"
  using assms
  unfolding dump_ring_def andthen_def Let_def emit_def
  by (auto split: sum.splits if_splits prod.splits)

lemma dump_rings_Inr:
  "dump_rings ex rb_base rbs st = Inr st' \<Longrightarrow>
   \<exists>es. st' = st\<lparr>effects := effects st @ es\<rparr> \<and> (\<forall>e \<in> set es. ring_effect e)"
proof (induction rbs arbitrary: st)
  case Nil
  then have "st' = st\<lparr>effects := effects st @ []\<rparr>" by simp
  then show ?case by (intro exI [of _ "[]"]) simp
next
  case (Cons rb rbs)
  show ?case
  proof (cases "rb_iova rb \<noteq> rb_base")
    case True
    with Cons.prems have "dump_rings ex rb_base rbs st = Inr st'" by simp
    then show ?thesis by (rule Cons.IH)
  next
    case False
    with Cons.prems obtain st2 where
      a: "dump_ring ex rb st = Inr st2" and b: "dump_rings ex rb_base rbs st2 = Inr st'"
      by (auto simp: andthen_def split: sum.splits)
    from dump_ring_Inr [OF a] obtain c bf where
      s2: "st2 = st\<lparr>effects := effects st @ [FoundRing, GotCmdszdw c, DumpCommands bf c]\<rparr>"
      by blast
    from Cons.IH [OF b] obtain es where
      s': "st' = st2\<lparr>effects := effects st2 @ es\<rparr>" and r: "\<forall>e \<in> set es. ring_effect e"
      by blast
    have "st' = st\<lparr>effects := effects st @ ([FoundRing, GotCmdszdw c, DumpCommands bf c] @ es)\<rparr>"
      using s2 s' by simp
    moreover have "\<forall>e \<in> set ([FoundRing, GotCmdszdw c, DumpCommands bf c] @ es). ring_effect e"
      using r by (simp add: ring_effect_def)
    ultimately show ?thesis by blast
  qed
qed


lemma reset_regs_simps [simp]:
  "regs (reset_regs st) = (\<lambda>_. 0)"
  "effects (reset_regs st) = effects st @ [RegsReset]"
  "options (reset_regs st) = options st"
  "ringbuffers (reset_regs st) = ringbuffers st"
  "infile (reset_regs st) = infile st"
  "lastline (reset_regs st) = lastline st"
  "pushedline (reset_regs st) = pushedline st"
  "verbose (reset_regs st) = verbose st"
  by (simp_all add: reset_regs_def emit_def)


lemma example_dump_630:
  "(case dump_cmdstream example_db (example_state 630 0x1000000) of
      Inl e \<Rightarrow> False
    | Inr st' \<Rightarrow>
        effects st' =
          [GotRbBase 0x1000000, PrintIB 1 0x100002000 15, PrintIB 2 0 9, RegsReset, FoundRing,
           GotCmdszdw 14,
           DumpCommands [0x70268000, 6, 7, 8, 9, 10, 11, 12, 13, 14, 15, 0, 1, 2] 14])"
  by code_simp

lemma example_dump_420:
  "(case dump_cmdstream example_db (example_state 420 0x1000000) of
      Inl e \<Rightarrow> False
    | Inr st' \<Rightarrow>
        effects st' =
          [GotRbBase 0x1000000, PrintIB 1 0x2000 10, PrintIB 2 0 7, RegsReset, FoundRing,
           GotCmdszdw 1, DumpCommands [2] 1])"
  by code_simp

lemma example_regval:
  "regval example_db (example_state g i) ''CP_IB1_REM_SIZE'' = Inr 10"
  "regval example_db (example_state g i) ''CP_IB2_REM_SIZE'' = Inr 7"
  "regval example_db (example_state g i) ''CP_CSQ_IB1_STAT'' = Inr 0x50003"
  "regval example_db (example_state g i) ''CP_CSQ_IB2_STAT'' = Inr 0x20000"
  by (simp_all add: regval_def reg_val_def example_db_def example_state_def example_regs_def)

lemma example_regval64:
  "regval64 example_db (example_state 630 0x1000000) ''CP_RB_BASE'' = Inr 0x1000000"
  "regval64 example_db (example_state 630 0x1000000) ''CP_IB1_BASE'' = Inr 0x100002000"
  "regval64 example_db (example_state 630 0x1000000) ''CP_IB2_BASE'' = Inr 0"
  by code_simp+

lemma example_a6xx: "is_a6xx (options (example_state 630 0x1000000))"
  by code_simp

lemma example_ib_rem: "(10 :: u32) + drop_bit 16 (0x50003 :: u32) = 15"
  "(7 :: u32) + drop_bit 16 (0x20000 :: u32) = 9"
  by code_simp+

lemma copy_words_total:
  assumes "sz \<noteq> 0" and "unat sz \<le> length buf"
  shows "\<exists>ws. copy_words buf sz rptr n idx = Inr ws"
proof (induction n arbitrary: idx)
  case 0
  show ?case by simp
next
  case (Suc n)
  have "ring_word buf (mod_add sz rptr idx) = Inr (buf ! unat (mod_add sz rptr idx))"
    using mod_add_less [OF assms(1)] assms(2) by (rule ring_word_in)
  moreover from Suc.IH obtain ws where "copy_words buf sz rptr n (idx + 1) = Inr ws"
    by blast
  ultimately show ?case by (simp add: andthen_def)
qed

lemma dump_ring_returns:
  assumes nz: "drop_bit 2 (rb_size rb) \<noteq> 0"
    and cover: "unat (drop_bit 2 (rb_size rb)) \<le> length (rb_buf rb)"
  shows "\<exists>st'. dump_ring ex rb st = Inr st'"
proof -
  let ?sz = "drop_bit 2 (rb_size rb)"
  have szb: "uint ?sz < 1073741824" by (rule ringszdw_bound)
  from header_search_general [OF nz szb cover mod_add_less [OF nz],
      of "valid_header ex (options (emit FoundRing st))" 12 "rb_rptr rb" "- 12"]
  obtain probed rptr where
    hs: "header_search (valid_header ex (options (emit FoundRing st))) (rb_buf rb) ?sz 12
          (mod_add ?sz (rb_rptr rb) (- 12)) = Inr (probed, rptr)"
    by (elim exE conjE)
  from copy_words_total [OF nz cover] obtain words where
    "copy_words (rb_buf rb) ?sz rptr (unat (mod_add ?sz (rb_wptr rb) (- rptr))) 0 = Inr words"
    by blast
  with nz hs show ?thesis
    by (simp add: dump_ring_def andthen_def Let_def)
qed

lemma dump_rings_filter:
  "dump_rings ex b rbs s = dump_rings ex b (filter (\<lambda>r. rb_iova r = b) rbs) s"
proof (induction rbs arbitrary: s)
  case Nil
  show ?case by simp
next
  case (Cons rb rbs)
  show ?case
  proof (cases "rb_iova rb = b")
    case True
    have "andthen (dump_ring ex rb s) (dump_rings ex b rbs)
        = andthen (dump_ring ex rb s) (dump_rings ex b (filter (\<lambda>r. rb_iova r = b) rbs))"
      using Cons.IH by (cases "dump_ring ex rb s") (simp_all add: andthen_def)
    with True show ?thesis by simp
  next
    case False
    with Cons.IH show ?thesis by simp
  qed
qed

lemma dump_rings_single:
  assumes "filter (\<lambda>r. rb_iova r = b) rbs = [rb]"
  shows "dump_rings ex b rbs s = dump_ring ex rb s"
proof -
  have "rb \<in> set (filter (\<lambda>r. rb_iova r = b) rbs)"
    using assms by simp
  then have m: "rb_iova rb = b" by simp
  have "dump_rings ex b rbs s = dump_rings ex b [rb] s"
    using dump_rings_filter [of ex b rbs s] assms by simp
  also have "\<dots> = dump_ring ex rb s"
    using m by (cases "dump_ring ex rb s") (simp_all add: andthen_def)
  finally show ?thesis .
qed

lemma valid_header_gpu:
  "gpu_id opts = gpu_id opts' \<Longrightarrow> valid_header ex opts = valid_header ex opts'"
  by (rule ext) (simp add: valid_header_def)

lemma example_two_rings_read:
  "(case read_cp_regs example_db
           ((example_state 630 0x1000000)
              \<lparr>ringbuffers := [example_ring\<lparr>rb_iova := 0x2000000\<rparr>, example_ring]\<rparr>) of
      Inl e \<Rightarrow> False
    | Inr (rb_base, st1) \<Rightarrow>
        rb_base = 0x1000000
      \<and> effects st1 = [GotRbBase 0x1000000, PrintIB 1 0x100002000 15, PrintIB 2 0 9])"
  by code_simp

lemma example_two_rings_search:
  "header_search
     (valid_header example_db
        (options ((example_state 630 0x1000000)
              \<lparr>ringbuffers := [example_ring\<lparr>rb_iova := 0x2000000\<rparr>, example_ring]\<rparr>)))
     (rb_buf example_ring) 16 12 (mod_add 16 (rb_rptr example_ring) (- 12))
   = Inr ([2, 3, 4, 5], 5)"
  by code_simp

lemma example_two_rings_facts:
  "filter (\<lambda>r. rb_iova r = 0x1000000)
     (ringbuffers ((example_state 630 0x1000000)
              \<lparr>ringbuffers := [example_ring\<lparr>rb_iova := 0x2000000\<rparr>, example_ring]\<rparr>))
   = [example_ring]"
  "(16 :: u32) = drop_bit 2 (rb_size example_ring)"
  "rb_wptr example_ring < 16"
  "unat (16 :: u32) \<le> length (rb_buf example_ring)"
  "mod_add 16 (rb_wptr example_ring) (- 5) = 14"
  "rb_wptr example_ring = 3"
  by code_simp+

text \<open>
  C1. For a ring buffer descriptor of capacity \<open>ringszdw = size >> 2\<close> whose recorded
  write pointer is inside the ring. A run of \<open>dump_cmdstream\<close> whose register reads
  succeed and in which this is the one descriptor with the \<open>iova\<close> of \<open>CP_RB_BASE\<close>
  does, after \<open>reset_regs\<close>, the work on this ring. That work returns when the buffer
  holds the ring. When it returns, the backward search has ended at a read pointer
  \<open>rptr\<close> inside the ring, and the in-flight word count \<open>cmdszdw\<close> that is printed and
  passed to \<open>dump_commands\<close>, together with that many words, is \<open>mod_add(wptr, -rptr)\<close>:
  the distance \<open>(wptr - rptr) mod ringszdw\<close> of the integers, in \<open>[0, ringszdw)\<close>, which
  is \<open>wptr - rptr\<close> when the write pointer is not behind the read pointer and
  \<open>ringszdw + wptr - rptr\<close> when it has wrapped. The same holds of
  \<open>mod_add(wptr, -rptr)\<close> for every read pointer inside the ring.
\<close>

theorem cmdszdw_modular_distance:
  assumes sz: "ringszdw = drop_bit 2 (rb_size rb)"
    and w: "rb_wptr rb < ringszdw"
  shows "(\<forall>st rb_base st1.
            read_cp_regs ex st = Inr (rb_base, st1)
          \<and> filter (\<lambda>r. rb_iova r = rb_base) (ringbuffers st) = [rb]
          \<longrightarrow> dump_cmdstream ex st = dump_ring ex rb (reset_regs st1)
            \<and> valid_header ex (options (reset_regs st1)) = valid_header ex (options st))
    \<and> (\<forall>s. unat ringszdw \<le> length (rb_buf rb) \<longrightarrow> (\<exists>s'. dump_ring ex rb s = Inr s'))
    \<and> (\<forall>s s'. dump_ring ex rb s = Inr s' \<longrightarrow>
         (\<exists>probed rptr words cmdszdw.
             header_search (valid_header ex (options s)) (rb_buf rb) ringszdw 12
               (mod_add ringszdw (rb_rptr rb) (- 12)) = Inr (probed, rptr)
           \<and> rptr < ringszdw
           \<and> cmdszdw = mod_add ringszdw (rb_wptr rb) (- rptr)
           \<and> s' = s\<lparr>effects := effects s @
                [FoundRing, GotCmdszdw cmdszdw, DumpCommands words cmdszdw]\<rparr>
           \<and> length words = unat cmdszdw
           \<and> uint cmdszdw = (uint (rb_wptr rb) - uint rptr) mod uint ringszdw
           \<and> 0 \<le> uint cmdszdw \<and> uint cmdszdw < uint ringszdw
           \<and> uint cmdszdw
               = (if rb_wptr rb < rptr then uint ringszdw + uint (rb_wptr rb) - uint rptr
                  else uint (rb_wptr rb) - uint rptr)))
    \<and> (\<forall>rptr. rptr < ringszdw \<longrightarrow>
          uint (mod_add ringszdw (rb_wptr rb) (- rptr))
            = (uint (rb_wptr rb) - uint rptr) mod uint ringszdw
        \<and> 0 \<le> uint (mod_add ringszdw (rb_wptr rb) (- rptr))
        \<and> uint (mod_add ringszdw (rb_wptr rb) (- rptr)) < uint ringszdw
        \<and> uint (mod_add ringszdw (rb_wptr rb) (- rptr))
            = (if rb_wptr rb < rptr then uint ringszdw + uint (rb_wptr rb) - uint rptr
               else uint (rb_wptr rb) - uint rptr))"
proof (intro conjI allI impI)
  have b: "uint ringszdw < 1073741824"
    using sz ringszdw_bound by simp
  have nz: "drop_bit 2 (rb_size rb) \<noteq> 0"
    using w sz by auto
  {
    fix st rb_base st1
    assume a: "read_cp_regs ex st = Inr (rb_base, st1)
          \<and> filter (\<lambda>r. rb_iova r = rb_base) (ringbuffers st) = [rb]"
    then have rd: "read_cp_regs ex st = Inr (rb_base, st1)"
      and ring: "filter (\<lambda>r. rb_iova r = rb_base) (ringbuffers st) = [rb]"
      by blast+
    from read_cp_regs_Inr [OF rd] have rbs: "ringbuffers st1 = ringbuffers st"
      and gpu: "gpu_id (options st1) = gpu_id (options st)"
      by blast+
    show "valid_header ex (options (reset_regs st1)) = valid_header ex (options st)"
      using gpu by (intro valid_header_gpu) simp
    show "dump_cmdstream ex st = dump_ring ex rb (reset_regs st1)"
      using rd ring rbs by (simp add: dump_cmdstream_def andthen_def dump_rings_single)
  }
  {
    fix s assume "unat ringszdw \<le> length (rb_buf rb)"
    then show "\<exists>s'. dump_ring ex rb s = Inr s'"
      unfolding sz using nz by (intro dump_ring_returns)
  }
  {
    fix rptr assume r: "rptr < ringszdw"
    from mod_add_distance [OF b r w]
    show "uint (mod_add ringszdw (rb_wptr rb) (- rptr))
            = (uint (rb_wptr rb) - uint rptr) mod uint ringszdw"
      and "0 \<le> uint (mod_add ringszdw (rb_wptr rb) (- rptr))"
      and "uint (mod_add ringszdw (rb_wptr rb) (- rptr)) < uint ringszdw"
      and "uint (mod_add ringszdw (rb_wptr rb) (- rptr))
            = (if rb_wptr rb < rptr then uint ringszdw + uint (rb_wptr rb) - uint rptr
               else uint (rb_wptr rb) - uint rptr)"
      by blast+
  }
  {
    fix s s' assume d: "dump_ring ex rb s = Inr s'"
    from dump_ring_outcome [OF d] obtain probed rptr words where
      hs: "header_search (valid_header ex (options s)) (rb_buf rb) ringszdw 12
            (mod_add ringszdw (rb_rptr rb) (- 12)) = Inr (probed, rptr)"
      and rl: "rptr < ringszdw"
      and len: "length words = unat (mod_add ringszdw (rb_wptr rb) (- rptr))"
      and s': "s' = s\<lparr>effects := effects s @
          [FoundRing,
           GotCmdszdw (mod_add ringszdw (rb_wptr rb) (- rptr)),
           DumpCommands words (mod_add ringszdw (rb_wptr rb) (- rptr))]\<rparr>"
      unfolding sz by blast
    let ?c = "mod_add ringszdw (rb_wptr rb) (- rptr)"
    from mod_add_distance [OF b rl w] hs rl len s'
    show "\<exists>probed rptr words cmdszdw.
             header_search (valid_header ex (options s)) (rb_buf rb) ringszdw 12
               (mod_add ringszdw (rb_rptr rb) (- 12)) = Inr (probed, rptr)
           \<and> rptr < ringszdw
           \<and> cmdszdw = mod_add ringszdw (rb_wptr rb) (- rptr)
           \<and> s' = s\<lparr>effects := effects s @
                [FoundRing, GotCmdszdw cmdszdw, DumpCommands words cmdszdw]\<rparr>
           \<and> length words = unat cmdszdw
           \<and> uint cmdszdw = (uint (rb_wptr rb) - uint rptr) mod uint ringszdw
           \<and> 0 \<le> uint cmdszdw \<and> uint cmdszdw < uint ringszdw
           \<and> uint cmdszdw
               = (if rb_wptr rb < rptr then uint ringszdw + uint (rb_wptr rb) - uint rptr
                  else uint (rb_wptr rb) - uint rptr)"
      by (rule_tac x = probed in exI, rule_tac x = rptr in exI,
          rule_tac x = words in exI, rule_tac x = "?c" in exI) blast
  }
qed

theorem cmdszdw_modular_distance_witness:
  "\<exists>st1 st' words.
      (16 :: u32) = drop_bit 2 (rb_size example_ring)
    \<and> rb_wptr example_ring = 3 \<and> rb_wptr example_ring < 16
    \<and> read_cp_regs example_db
        ((example_state 630 0x1000000)
           \<lparr>ringbuffers := [example_ring\<lparr>rb_iova := 0x2000000\<rparr>, example_ring]\<rparr>)
        = Inr (0x1000000, st1)
    \<and> filter (\<lambda>r. rb_iova r = 0x1000000)
        (ringbuffers ((example_state 630 0x1000000)
           \<lparr>ringbuffers := [example_ring\<lparr>rb_iova := 0x2000000\<rparr>, example_ring]\<rparr>))
        = [example_ring]
    \<and> dump_cmdstream example_db
        ((example_state 630 0x1000000)
           \<lparr>ringbuffers := [example_ring\<lparr>rb_iova := 0x2000000\<rparr>, example_ring]\<rparr>)
        = Inr st'
    \<and> effects st' = effects st1 @
         [RegsReset, FoundRing, GotCmdszdw 14, DumpCommands words 14]
    \<and> length words = 14
    \<and> uint (14 :: u32) = (uint (3 :: u32) - uint (5 :: u32)) mod uint (16 :: u32)
    \<and> uint (14 :: u32) = uint (16 :: u32) + uint (3 :: u32) - uint (5 :: u32)"
proof -
  let ?st = "(example_state 630 0x1000000)
           \<lparr>ringbuffers := [example_ring\<lparr>rb_iova := 0x2000000\<rparr>, example_ring]\<rparr>"
  obtain st1 where r: "read_cp_regs example_db ?st = Inr (0x1000000, st1)"
    using example_two_rings_read
    by (cases "read_cp_regs example_db ?st") auto
  note t = cmdszdw_modular_distance [OF example_two_rings_facts(2) example_two_rings_facts(3), of example_db]
  from t r example_two_rings_facts(1)
  have run: "dump_cmdstream example_db ?st = dump_ring example_db example_ring (reset_regs st1)"
    and vh: "valid_header example_db (options (reset_regs st1))
               = valid_header example_db (options ?st)"
    by blast+
  from t example_two_rings_facts(4) obtain st' where
    d: "dump_ring example_db example_ring (reset_regs st1) = Inr st'"
    by blast
  from t d obtain probed rptr words cmdszdw where
    hs: "header_search (valid_header example_db (options (reset_regs st1)))
               (rb_buf example_ring) 16 12
               (mod_add 16 (rb_rptr example_ring) (- 12)) = Inr (probed, rptr)"
    and c: "cmdszdw = mod_add 16 (rb_wptr example_ring) (- rptr)"
    and s': "st' = (reset_regs st1)\<lparr>effects := effects (reset_regs st1) @
                [FoundRing, GotCmdszdw cmdszdw, DumpCommands words cmdszdw]\<rparr>"
    and len: "length words = unat cmdszdw"
    and m: "uint cmdszdw = (uint (rb_wptr example_ring) - uint rptr) mod uint (16 :: u32)"
    and wr: "uint cmdszdw
               = (if rb_wptr example_ring < rptr
                  then uint (16 :: u32) + uint (rb_wptr example_ring) - uint rptr
                  else uint (rb_wptr example_ring) - uint rptr)"
    by blast
  from hs have rp: "rptr = 5"
    unfolding vh example_two_rings_search by simp
  from c have c14: "cmdszdw = 14"
    unfolding rp example_two_rings_facts(5) .
  have ef: "effects st' = effects st1 @
                [RegsReset, FoundRing, GotCmdszdw cmdszdw, DumpCommands words cmdszdw]"
    unfolding s' by simp
  have lt: "(3 :: u32) < 5" by simp
  have d': "dump_cmdstream example_db ?st = Inr st'"
    unfolding run by (rule d)
  from r example_two_rings_facts d' ef len m wr lt show ?thesis
    unfolding c14 rp example_two_rings_facts(6)
    by (rule_tac x = st1 in exI, rule_tac x = st' in exI, rule_tac x = words in exI) simp
qed



text \<open>
  C7. In every run of \<open>dump_cmdstream\<close>: a run in which a register read fails ends there,
  before \<open>reset_regs\<close> and any work on a ring. Otherwise the values of \<open>CP_RB_BASE\<close>,
  \<open>CP_IB1_BASE\<close>, \<open>CP_IB1_REM_SIZE\<close>, \<open>CP_IB2_BASE\<close>, \<open>CP_IB2_REM_SIZE\<close> and, on
  a6xx, \<open>CP_CSQ_IB1_STAT\<close> and \<open>CP_CSQ_IB2_STAT\<close> are those of the registers in the
  state at entry, before the reset; they are what is printed and stored in
  \<open>options.ibs\<close>; the reads leave the registers as they were; and the loop over the ring
  buffers (search, copy and \<open>dump_commands\<close>) runs on the state left by \<open>reset_regs\<close>,
  whose registers are all zero. In a run that returns, the effects are the \<open>printf\<close> of
  the values read, then \<open>reset_regs\<close>, then the effects of the rings, and
  \<open>options.ibs\<close> is as the reads left it.
\<close>

theorem reset_between_reads_and_rings:
  "(\<forall>e. read_cp_regs ex st = Inl e \<longrightarrow> dump_cmdstream ex st = Inl e)
   \<and> (\<forall>rb_base st1. read_cp_regs ex st = Inr (rb_base, st1) \<longrightarrow>
         (\<exists>b1 q1 b2 q2 r1 r2.
             regval64 ex st ''CP_RB_BASE'' = Inr rb_base
           \<and> regval64 ex st ''CP_IB1_BASE'' = Inr b1
           \<and> regval ex st ''CP_IB1_REM_SIZE'' = Inr q1
           \<and> regval64 ex st ''CP_IB2_BASE'' = Inr b2
           \<and> regval ex st ''CP_IB2_REM_SIZE'' = Inr q2
           \<and> (if is_a6xx (options st)
               then \<exists>s1 s2. regval ex st ''CP_CSQ_IB1_STAT'' = Inr s1
                      \<and> regval ex st ''CP_CSQ_IB2_STAT'' = Inr s2
                      \<and> r1 = q1 + drop_bit 16 s1 \<and> r2 = q2 + drop_bit 16 s2
               else r1 = q1 \<and> r2 = q2)
           \<and> ibs (options st1) 1 = (ibs (options st) 1)\<lparr>ib_base := b1, ib_rem := r1\<rparr>
           \<and> ibs (options st1) 2 = (ibs (options st) 2)\<lparr>ib_base := b2, ib_rem := r2\<rparr>
           \<and> effects st1 = effects st
                @ [GotRbBase rb_base, PrintIB 1 b1 r1, PrintIB 2 b2 r2]
           \<and> regs st1 = regs st
           \<and> dump_cmdstream ex st = dump_rings ex rb_base (ringbuffers st) (reset_regs st1)
           \<and> effects (reset_regs st1) = effects st1 @ [RegsReset]
           \<and> options (reset_regs st1) = options st1
           \<and> regs (reset_regs st1) = (\<lambda>_. 0)))
   \<and> (\<forall>st'. dump_cmdstream ex st = Inr st' \<longrightarrow>
         (\<exists>rb_base st1 ring_effects.
             read_cp_regs ex st = Inr (rb_base, st1)
           \<and> options st' = options st1
           \<and> effects st' = effects st1 @ [RegsReset] @ ring_effects
           \<and> (\<forall>e \<in> set ring_effects. ring_effect e)))"
proof (intro conjI allI impI)
  fix e assume "read_cp_regs ex st = Inl e"
  then show "dump_cmdstream ex st = Inl e"
    by (simp add: dump_cmdstream_def andthen_def)
next
  fix rb_base st1 assume r: "read_cp_regs ex st = Inr (rb_base, st1)"
  from read_cp_regs_Inr [OF r] obtain b1 q1 b2 q2 where
    rb: "regval64 ex st ''CP_RB_BASE'' = Inr rb_base"
    and b1: "regval64 ex st ''CP_IB1_BASE'' = Inr b1"
    and q1: "regval ex st ''CP_IB1_REM_SIZE'' = Inr q1"
    and b2: "regval64 ex st ''CP_IB2_BASE'' = Inr b2"
    and q2: "regval ex st ''CP_IB2_REM_SIZE'' = Inr q2"
    and i: "if is_a6xx (options st)
        then \<exists>s1 s2. regval ex st ''CP_CSQ_IB1_STAT'' = Inr s1
               \<and> regval ex st ''CP_CSQ_IB2_STAT'' = Inr s2
               \<and> ibs (options st1) 1 = (ibs (options st) 1)\<lparr>ib_base := b1, ib_rem := q1 + drop_bit 16 s1\<rparr>
               \<and> ibs (options st1) 2 = (ibs (options st) 2)\<lparr>ib_base := b2, ib_rem := q2 + drop_bit 16 s2\<rparr>
        else ibs (options st1) 1 = (ibs (options st) 1)\<lparr>ib_base := b1, ib_rem := q1\<rparr>
           \<and> ibs (options st1) 2 = (ibs (options st) 2)\<lparr>ib_base := b2, ib_rem := q2\<rparr>"
    and ef: "effects st1 = effects st @
         [GotRbBase rb_base,
          PrintIB 1 (ib_base (ibs (options st1) 1)) (ib_rem (ibs (options st1) 1)),
          PrintIB 2 (ib_base (ibs (options st1) 2)) (ib_rem (ibs (options st1) 2))]"
    and rg: "regs st1 = regs st" and rbs: "ringbuffers st1 = ringbuffers st"
    by blast
  have "\<exists>r1 r2.
        (if is_a6xx (options st)
         then \<exists>s1 s2. regval ex st ''CP_CSQ_IB1_STAT'' = Inr s1
                \<and> regval ex st ''CP_CSQ_IB2_STAT'' = Inr s2
                \<and> r1 = q1 + drop_bit 16 s1 \<and> r2 = q2 + drop_bit 16 s2
         else r1 = q1 \<and> r2 = q2)
      \<and> ibs (options st1) 1 = (ibs (options st) 1)\<lparr>ib_base := b1, ib_rem := r1\<rparr>
      \<and> ibs (options st1) 2 = (ibs (options st) 2)\<lparr>ib_base := b2, ib_rem := r2\<rparr>"
  proof (cases "is_a6xx (options st)")
    case True
    with i obtain s1 s2 where
      "regval ex st ''CP_CSQ_IB1_STAT'' = Inr s1" "regval ex st ''CP_CSQ_IB2_STAT'' = Inr s2"
      "ibs (options st1) 1 = (ibs (options st) 1)\<lparr>ib_base := b1, ib_rem := q1 + drop_bit 16 s1\<rparr>"
      "ibs (options st1) 2 = (ibs (options st) 2)\<lparr>ib_base := b2, ib_rem := q2 + drop_bit 16 s2\<rparr>"
      by auto
    with True show ?thesis
      by (rule_tac x = "q1 + drop_bit 16 s1" in exI, rule_tac x = "q2 + drop_bit 16 s2" in exI)
        auto
  next
    case False
    with i show ?thesis
      by (rule_tac x = q1 in exI, rule_tac x = q2 in exI) simp
  qed
  then obtain r1 r2 where
    c: "if is_a6xx (options st)
         then \<exists>s1 s2. regval ex st ''CP_CSQ_IB1_STAT'' = Inr s1
                \<and> regval ex st ''CP_CSQ_IB2_STAT'' = Inr s2
                \<and> r1 = q1 + drop_bit 16 s1 \<and> r2 = q2 + drop_bit 16 s2
         else r1 = q1 \<and> r2 = q2"
    and i1: "ibs (options st1) 1 = (ibs (options st) 1)\<lparr>ib_base := b1, ib_rem := r1\<rparr>"
    and i2: "ibs (options st1) 2 = (ibs (options st) 2)\<lparr>ib_base := b2, ib_rem := r2\<rparr>"
    by blast
  have ef': "effects st1 = effects st @ [GotRbBase rb_base, PrintIB 1 b1 r1, PrintIB 2 b2 r2]"
    using ef i1 i2 by simp
  have run: "dump_cmdstream ex st = dump_rings ex rb_base (ringbuffers st) (reset_regs st1)"
    using r rbs by (simp add: dump_cmdstream_def andthen_def)
  have rs: "effects (reset_regs st1) = effects st1 @ [RegsReset]"
    "options (reset_regs st1) = options st1" "regs (reset_regs st1) = (\<lambda>_. 0)"
    by simp_all
  from rb b1 q1 b2 q2 c i1 i2 ef' rg run rs
  show "\<exists>b1 q1 b2 q2 r1 r2.
             regval64 ex st ''CP_RB_BASE'' = Inr rb_base
           \<and> regval64 ex st ''CP_IB1_BASE'' = Inr b1
           \<and> regval ex st ''CP_IB1_REM_SIZE'' = Inr q1
           \<and> regval64 ex st ''CP_IB2_BASE'' = Inr b2
           \<and> regval ex st ''CP_IB2_REM_SIZE'' = Inr q2
           \<and> (if is_a6xx (options st)
               then \<exists>s1 s2. regval ex st ''CP_CSQ_IB1_STAT'' = Inr s1
                      \<and> regval ex st ''CP_CSQ_IB2_STAT'' = Inr s2
                      \<and> r1 = q1 + drop_bit 16 s1 \<and> r2 = q2 + drop_bit 16 s2
               else r1 = q1 \<and> r2 = q2)
           \<and> ibs (options st1) 1 = (ibs (options st) 1)\<lparr>ib_base := b1, ib_rem := r1\<rparr>
           \<and> ibs (options st1) 2 = (ibs (options st) 2)\<lparr>ib_base := b2, ib_rem := r2\<rparr>
           \<and> effects st1 = effects st
                @ [GotRbBase rb_base, PrintIB 1 b1 r1, PrintIB 2 b2 r2]
           \<and> regs st1 = regs st
           \<and> dump_cmdstream ex st = dump_rings ex rb_base (ringbuffers st) (reset_regs st1)
           \<and> effects (reset_regs st1) = effects st1 @ [RegsReset]
           \<and> options (reset_regs st1) = options st1
           \<and> regs (reset_regs st1) = (\<lambda>_. 0)"
    by (rule_tac x = b1 in exI, rule_tac x = q1 in exI, rule_tac x = b2 in exI,
        rule_tac x = q2 in exI, rule_tac x = r1 in exI, rule_tac x = r2 in exI) blast
next
  fix st' assume d: "dump_cmdstream ex st = Inr st'"
  then obtain rb_base st1 where r: "read_cp_regs ex st = Inr (rb_base, st1)"
    and g: "dump_rings ex rb_base (ringbuffers st1) (reset_regs st1) = Inr st'"
    by (auto simp: dump_cmdstream_def andthen_def split: sum.splits)
  from dump_rings_Inr [OF g] obtain es where
    s': "st' = (reset_regs st1)\<lparr>effects := effects (reset_regs st1) @ es\<rparr>"
    and es: "\<forall>e \<in> set es. ring_effect e"
    by blast
  have o: "options st' = options st1"
    and e': "effects st' = effects st1 @ [RegsReset] @ es"
    using s' by simp_all
  from r o e' es
  show "\<exists>rb_base st1 ring_effects.
             read_cp_regs ex st = Inr (rb_base, st1)
           \<and> options st' = options st1
           \<and> effects st' = effects st1 @ [RegsReset] @ ring_effects
           \<and> (\<forall>e \<in> set ring_effects. ring_effect e)"
    by blast
qed

theorem reset_between_reads_and_rings_witness:
  "\<exists>st1 st'.
       read_cp_regs example_db (example_state 630 0x1000000) = Inr (0x1000000, st1)
     \<and> regval example_db (example_state 630 0x1000000) ''CP_IB1_REM_SIZE'' = Inr 10
     \<and> regval example_db (example_state 630 0x1000000) ''CP_CSQ_IB1_STAT'' = Inr 0x50003
     \<and> regval example_db (example_state 630 0x1000000) ''CP_IB2_REM_SIZE'' = Inr 7
     \<and> regval example_db (example_state 630 0x1000000) ''CP_CSQ_IB2_STAT'' = Inr 0x20000
     \<and> effects st1 = [GotRbBase 0x1000000, PrintIB 1 0x100002000 15, PrintIB 2 0 9]
     \<and> ib_rem (ibs (options st1) 1) = 15 \<and> ib_rem (ibs (options st1) 2) = 9
     \<and> regs st1 = example_regs
     \<and> regs (reset_regs st1) = (\<lambda>_. 0)
     \<and> dump_cmdstream example_db (example_state 630 0x1000000) = Inr st'
     \<and> options st' = options st1
     \<and> effects st' = effects st1 @
          [RegsReset, FoundRing, GotCmdszdw 14,
           DumpCommands [0x70268000, 6, 7, 8, 9, 10, 11, 12, 13, 14, 15, 0, 1, 2] 14]"
proof -
  let ?st = "example_state 630 0x1000000"
  obtain st' where d: "dump_cmdstream example_db ?st = Inr st'"
    and e: "effects st' =
          [GotRbBase 0x1000000, PrintIB 1 0x100002000 15, PrintIB 2 0 9, RegsReset, FoundRing,
           GotCmdszdw 14,
           DumpCommands [0x70268000, 6, 7, 8, 9, 10, 11, 12, 13, 14, 15, 0, 1, 2] 14]"
    using example_dump_630
    by (cases "dump_cmdstream example_db ?st") auto
  note t = reset_between_reads_and_rings [of example_db ?st]
  from t d obtain rb_base st1 es where
    r: "read_cp_regs example_db ?st = Inr (rb_base, st1)"
    and o: "options st' = options st1"
    and e': "effects st' = effects st1 @ [RegsReset] @ es"
    by blast
  from t r obtain b1 q1 b2 q2 r1 r2 where
    rb: "regval64 example_db ?st ''CP_RB_BASE'' = Inr rb_base"
    and b1: "regval64 example_db ?st ''CP_IB1_BASE'' = Inr b1"
    and q1: "regval example_db ?st ''CP_IB1_REM_SIZE'' = Inr q1"
    and b2: "regval64 example_db ?st ''CP_IB2_BASE'' = Inr b2"
    and q2: "regval example_db ?st ''CP_IB2_REM_SIZE'' = Inr q2"
    and c: "if is_a6xx (options ?st)
               then \<exists>s1 s2. regval example_db ?st ''CP_CSQ_IB1_STAT'' = Inr s1
                      \<and> regval example_db ?st ''CP_CSQ_IB2_STAT'' = Inr s2
                      \<and> r1 = q1 + drop_bit 16 s1 \<and> r2 = q2 + drop_bit 16 s2
               else r1 = q1 \<and> r2 = q2"
    and i1: "ibs (options st1) 1 = (ibs (options ?st) 1)\<lparr>ib_base := b1, ib_rem := r1\<rparr>"
    and i2: "ibs (options st1) 2 = (ibs (options ?st) 2)\<lparr>ib_base := b2, ib_rem := r2\<rparr>"
    and ef: "effects st1 = effects ?st
                @ [GotRbBase rb_base, PrintIB 1 b1 r1, PrintIB 2 b2 r2]"
    and rg: "regs st1 = regs ?st"
    and z: "regs (reset_regs st1) = (\<lambda>_. 0)"
    by blast
  from rb b1 b2 have v: "rb_base = 0x1000000" "b1 = 0x100002000" "b2 = 0"
    unfolding example_regval64 by simp_all
  from q1 q2 have q: "q1 = 10" "q2 = 7"
    unfolding example_regval by simp_all
  from c have rr: "r1 = 15" "r2 = 9"
    unfolding q example_regval using example_a6xx example_ib_rem by auto
  have e0: "effects ?st = []" "regs ?st = example_regs"
    by (simp_all add: example_state_def)
  have ef1: "effects st1 = [GotRbBase 0x1000000, PrintIB 1 0x100002000 15, PrintIB 2 0 9]"
    using ef unfolding v rr e0 by simp
  have e2: "effects st' = effects st1 @
          [RegsReset, FoundRing, GotCmdszdw 14,
           DumpCommands [0x70268000, 6, 7, 8, 9, 10, 11, 12, 13, 14, 15, 0, 1, 2] 14]"
    unfolding e ef1 by simp
  have ir: "ib_rem (ibs (options st1) 1) = 15" "ib_rem (ibs (options st1) 2) = 9"
    unfolding i1 i2 rr by simp_all
  from r [unfolded v] example_regval [of 630 "0x1000000"] ef1 ir rg [unfolded e0] z d o e2
  show ?thesis
    by (rule_tac x = st1 in exI, rule_tac x = st' in exI) (intro conjI; assumption)
qed

text \<open>
  C9. In a run of \<open>dump_cmdstream\<close> that returns, \<open>options.ibs[n].rem\<close> for \<open>n\<close> in
  \<open>{1, 2}\<close> is \<open>CP_IBn_REM_SIZE + (CP_CSQ_IBn_STAT >> 16)\<close> (a 32-bit sum) when
  \<open>600 \<le> gpu_id < 700\<close>, and \<open>CP_IBn_REM_SIZE\<close> otherwise.
\<close>

theorem ib_rem_correction:
  assumes "dump_cmdstream ex st = Inr st'"
  shows "\<exists>r1 r2.
      regval ex st ''CP_IB1_REM_SIZE'' = Inr r1
    \<and> regval ex st ''CP_IB2_REM_SIZE'' = Inr r2
    \<and> (if 600 \<le> gpu_id (options st) \<and> gpu_id (options st) < 700
        then \<exists>s1 s2. regval ex st ''CP_CSQ_IB1_STAT'' = Inr s1
               \<and> regval ex st ''CP_CSQ_IB2_STAT'' = Inr s2
               \<and> ib_rem (ibs (options st') 1) = r1 + drop_bit 16 s1
               \<and> ib_rem (ibs (options st') 2) = r2 + drop_bit 16 s2
        else ib_rem (ibs (options st') 1) = r1 \<and> ib_rem (ibs (options st') 2) = r2)"
proof -
  from assms obtain rb_base st1 where r: "read_cp_regs ex st = Inr (rb_base, st1)"
    and g: "dump_rings ex rb_base (ringbuffers st1) (reset_regs st1) = Inr st'"
    by (auto simp: dump_cmdstream_def andthen_def split: sum.splits)
  from dump_rings_Inr [OF g] have o: "options st' = options st1" by auto
  from read_cp_regs_Inr [OF r] obtain b1 r1 b2 r2 where
    r1: "regval ex st ''CP_IB1_REM_SIZE'' = Inr r1"
    and r2: "regval ex st ''CP_IB2_REM_SIZE'' = Inr r2"
    and i: "if is_a6xx (options st)
        then \<exists>s1 s2. regval ex st ''CP_CSQ_IB1_STAT'' = Inr s1
               \<and> regval ex st ''CP_CSQ_IB2_STAT'' = Inr s2
               \<and> ibs (options st1) 1 = (ibs (options st) 1)\<lparr>ib_base := b1, ib_rem := r1 + drop_bit 16 s1\<rparr>
               \<and> ibs (options st1) 2 = (ibs (options st) 2)\<lparr>ib_base := b2, ib_rem := r2 + drop_bit 16 s2\<rparr>
        else ibs (options st1) 1 = (ibs (options st) 1)\<lparr>ib_base := b1, ib_rem := r1\<rparr>
           \<and> ibs (options st1) 2 = (ibs (options st) 2)\<lparr>ib_base := b2, ib_rem := r2\<rparr>"
    by blast
  show ?thesis
  proof (cases "is_a6xx (options st)")
    case True
    with i obtain s1 s2 where
      "regval ex st ''CP_CSQ_IB1_STAT'' = Inr s1" "regval ex st ''CP_CSQ_IB2_STAT'' = Inr s2"
      "ibs (options st1) 1 = (ibs (options st) 1)\<lparr>ib_base := b1, ib_rem := r1 + drop_bit 16 s1\<rparr>"
      "ibs (options st1) 2 = (ibs (options st) 2)\<lparr>ib_base := b2, ib_rem := r2 + drop_bit 16 s2\<rparr>"
      by auto
    with True r1 r2 show ?thesis
      unfolding o is_a6xx_def by simp
  next
    case False
    with i have
      "ibs (options st1) 1 = (ibs (options st) 1)\<lparr>ib_base := b1, ib_rem := r1\<rparr>"
      "ibs (options st1) 2 = (ibs (options st) 2)\<lparr>ib_base := b2, ib_rem := r2\<rparr>"
      by auto
    with False r1 r2 show ?thesis
      unfolding o is_a6xx_def by auto
  qed
qed

theorem ib_rem_correction_witness:
  "(\<exists>st'. dump_cmdstream example_db (example_state 630 0x1000000) = Inr st'
      \<and> ib_rem (ibs (options st') 1) = 15 \<and> ib_rem (ibs (options st') 2) = 9)
   \<and> (\<exists>st'. dump_cmdstream example_db (example_state 420 0x1000000) = Inr st'
      \<and> ib_rem (ibs (options st') 1) = 10 \<and> ib_rem (ibs (options st') 2) = 7)"
proof
  obtain st' where d: "dump_cmdstream example_db (example_state 630 0x1000000) = Inr st'"
    using example_dump_630
    by (cases "dump_cmdstream example_db (example_state 630 0x1000000)") auto
  have g: "gpu_id (options (example_state 630 0x1000000)) = 630"
    by (simp add: example_state_def)
  from ib_rem_correction [OF d] have "ib_rem (ibs (options st') 1) = 15 \<and> ib_rem (ibs (options st') 2) = 9"
    unfolding g example_regval by simp
  with d show "\<exists>st'. dump_cmdstream example_db (example_state 630 0x1000000) = Inr st'
      \<and> ib_rem (ibs (options st') 1) = 15 \<and> ib_rem (ibs (options st') 2) = 9"
    by blast
next
  obtain st' where d: "dump_cmdstream example_db (example_state 420 0x1000000) = Inr st'"
    using example_dump_420
    by (cases "dump_cmdstream example_db (example_state 420 0x1000000)") auto
  have g: "gpu_id (options (example_state 420 0x1000000)) = 420"
    by (simp add: example_state_def)
  from ib_rem_correction [OF d] have "ib_rem (ibs (options st') 1) = 10 \<and> ib_rem (ibs (options st') 2) = 7"
    unfolding g example_regval by simp
  with d show "\<exists>st'. dump_cmdstream example_db (example_state 420 0x1000000) = Inr st'
      \<and> ib_rem (ibs (options st') 1) = 10 \<and> ib_rem (ibs (options st') 2) = 7"
    by blast
qed

end
